theory Spec2Isabelle
  imports Main "HOL-Library.Multiset" "HOL-Library.Sublist"
begin

section \<open>Python values\<close>

text \<open>
  The notebook that merges and filters the generated features is modelled: its functions
  \<^verbatim>\<open>load_json_files\<close>, \<^verbatim>\<open>parse_response\<close> and \<^verbatim>\<open>filter_samples\<close>, and the cells that load
  the samples and save the result.

  A Python \<^verbatim>\<open>str\<close> is a sequence of Unicode code points, so it is a list of naturals
  here; \<open>lit\<close> turns an ASCII literal into such a list. The values \<^verbatim>\<open>json.loads\<close> builds
  are the datatype \<open>json\<close>; a dict is an association list in insertion order with distinct
  keys. A float keeps the text of its literal, since its binary value plays no role in the
  notebook beyond being printed by \<^verbatim>\<open>str\<close>.

  The library functions the notebook calls (\<^verbatim>\<open>re.search\<close>, \<^verbatim>\<open>json.loads\<close>, \<^verbatim>\<open>int\<close>,
  \<^verbatim>\<open>str\<close>, \<^verbatim>\<open>str.endswith\<close>, \<^verbatim>\<open>list.extend\<close>) follow CPython 3.12, the version recorded
  in the notebook, with its default settings. The interpreter's stack depth and memory are
  taken to be sufficient.
\<close>

type_synonym pystr = "nat list"

definition lit :: "string \<Rightarrow> pystr" where
  "lit s = map of_char s"

datatype json =
    JNull
  | JBool bool
  | JInt int
  | JFloat pystr
  | JStr pystr
  | JArray "json list"
  | JObject "(pystr \<times> json) list"

datatype error =
    JSONDecodeError
  | ValueError
  | KeyError
  | TypeError
  | AttributeError
  | OSError
  | OutOfFuel

definition startswith :: "pystr \<Rightarrow> pystr \<Rightarrow> bool" where
  "startswith s p = (take (length p) s = p)"

definition endswith :: "pystr \<Rightarrow> pystr \<Rightarrow> bool" where
  "endswith s p = (length p \<le> length s \<and> drop (length s - length p) s = p)"

definition is_digit :: "nat \<Rightarrow> bool" where
  "is_digit c = (48 \<le> c \<and> c \<le> 57)"

definition digits_value :: "pystr \<Rightarrow> int" where
  "digits_value ds = foldl (\<lambda>a d. 10 * a + int (d - 48)) 0 ds"

text \<open>
  \<^verbatim>\<open>sys.get_int_max_str_digits()\<close>: a decimal literal with more digits is refused with
  \<^verbatim>\<open>ValueError\<close> by every conversion of text to \<^verbatim>\<open>int\<close>.
\<close>

definition int_max_str_digits :: nat where
  "int_max_str_digits = 4300"

section \<open>The pattern \<^verbatim>\<open>\{.*\}\<close>\<close>

text \<open>
  \<^verbatim>\<open>re.search(r'\{.*\}', response_str)\<close> tries each start position from the left. At an
  opening brace (code point 123) the greedy \<^verbatim>\<open>.*\<close> runs to the end of the line (the dot
  matches everything but the line feed, code point 10) and backs up to the last closing
  brace (125) of the run. \<open>re_search\<close> returns \<^verbatim>\<open>match.group()\<close>, or \<open>None\<close> when there is no
  match.
\<close>

definition dot_star_brace :: "pystr \<Rightarrow> pystr option" where
  "dot_star_brace cs =
     (let line = takeWhile (\<lambda>c. c \<noteq> 10) cs
      in if 125 \<in> set line
         then Some (rev (dropWhile (\<lambda>c. c \<noteq> 125) (rev line)))
         else None)"

fun re_search :: "pystr \<Rightarrow> pystr option" where
  "re_search [] = None"
| "re_search (c # cs) =
     (if c = 123
      then (case dot_star_brace cs of
              Some m \<Rightarrow> Some (c # m)
            | None \<Rightarrow> re_search cs)
      else re_search cs)"

section \<open>\<^verbatim>\<open>int(value)\<close> and \<^verbatim>\<open>str(v)\<close>\<close>

text \<open>
  \<^verbatim>\<open>int\<close> of a string first maps every non-ASCII white space to a blank and every
  non-ASCII decimal digit to its ASCII digit; any other non-ASCII character makes the
  literal invalid. The ASCII text is then: white space, an optional sign, digits with
  single underscores between them, white space. \<open>None\<close> stands for \<^verbatim>\<open>ValueError\<close>.
\<close>

definition unicode_space :: "nat \<Rightarrow> bool" where
  "unicode_space c =
     (c \<in> set [0x85, 0xA0, 0x1680, 0x2028, 0x2029, 0x202F, 0x205F, 0x3000]
      \<or> (0x2000 \<le> c \<and> c \<le> 0x200A))"

definition decimal_starts :: "nat list" where
  "decimal_starts =
     [0x660, 0x6F0, 0x7C0, 0x966, 0x9E6, 0xA66, 0xAE6, 0xB66, 0xBE6, 0xC66, 0xCE6, 0xD66,
      0xDE6, 0xE50, 0xED0, 0xF20, 0x1040, 0x1090, 0x17E0, 0x1810, 0x1946, 0x19D0, 0x1A80,
      0x1A90, 0x1B50, 0x1BB0, 0x1C40, 0x1C50, 0xA620, 0xA8D0, 0xA900, 0xA9D0, 0xA9F0, 0xAA50,
      0xABF0, 0xFF10, 0x104A0, 0x10D30, 0x11066, 0x110F0, 0x11136, 0x111D0, 0x112F0, 0x11450,
      0x114D0, 0x11650, 0x116C0, 0x11730, 0x118E0, 0x11950, 0x11C50, 0x11D50, 0x11DA0,
      0x11F50, 0x16A60, 0x16AC0, 0x16B50, 0x1D7CE, 0x1D7D8, 0x1D7E2, 0x1D7EC, 0x1D7F6,
      0x1E140, 0x1E2F0, 0x1E4F0, 0x1E950, 0x1FBF0]"

definition unicode_decimal :: "nat \<Rightarrow> nat option" where
  "unicode_decimal c =
     (case filter (\<lambda>s. s \<le> c \<and> c < s + 10) decimal_starts of
        [] \<Rightarrow> None
      | s # _ \<Rightarrow> Some (c - s))"

fun to_ascii :: "pystr \<Rightarrow> pystr option" where
  "to_ascii [] = Some []"
| "to_ascii (c # cs) =
     (if c < 127 then map_option ((#) c) (to_ascii cs)
      else if unicode_space c then map_option ((#) 32) (to_ascii cs)
      else (case unicode_decimal c of
              None \<Rightarrow> None
            | Some d \<Rightarrow> map_option ((#) (48 + d)) (to_ascii cs)))"

definition ascii_space :: "nat \<Rightarrow> bool" where
  "ascii_space c = (c = 32 \<or> (9 \<le> c \<and> c \<le> 13))"

text \<open>Digits with single underscores between them: the digits, or \<open>None\<close>.\<close>

fun digit_run :: "pystr \<Rightarrow> pystr option" where
  "digit_run [] = None"
| "digit_run [c] = (if is_digit c then Some [c] else None)"
| "digit_run (c # d # cs) =
     (if is_digit c
      then (if d = 95 then map_option ((#) c) (digit_run cs)
            else map_option ((#) c) (digit_run (d # cs)))
      else None)"

definition long_from_string :: "pystr \<Rightarrow> int option" where
  "long_from_string a =
     (let s1 = dropWhile ascii_space a;
          neg = (s1 \<noteq> [] \<and> hd s1 = 45);
          s2 = (if s1 \<noteq> [] \<and> (hd s1 = 43 \<or> hd s1 = 45) then tl s1 else s1);
          body = takeWhile (\<lambda>c. is_digit c \<or> c = 95) s2;
          rest = dropWhile (\<lambda>c. is_digit c \<or> c = 95) s2
      in (case digit_run body of
            None \<Rightarrow> None
          | Some ds \<Rightarrow>
              if int_max_str_digits < length ds then None
              else if dropWhile ascii_space rest \<noteq> [] then None
              else Some (if neg then - digits_value ds else digits_value ds)))"

text \<open>
  \<^verbatim>\<open>str(v)\<close> of a value that \<^verbatim>\<open>json.loads\<close> built. The text of a float, a list or a dict
  depends on the shortest round-trip printing of binary floating point and on the Unicode
  tables behind \<^verbatim>\<open>repr\<close>; it is kept as \<open>Printed v\<close>. Such a text is never an integer
  literal: a float prints with a point, an exponent, \<^verbatim>\<open>inf\<close> or \<^verbatim>\<open>nan\<close>, a list opens with
  a square bracket and a dict with a brace, and \<^verbatim>\<open>int\<close> raises \<^verbatim>\<open>ValueError\<close> on all of them.
\<close>

datatype strval = Plain pystr | Printed json

function nat_digits :: "nat \<Rightarrow> pystr" where
  "nat_digits n = (if n < 10 then [48 + n] else nat_digits (n div 10) @ [48 + n mod 10])"
  by pat_completeness auto
termination
  by (relation "measure id") auto

definition int_str :: "int \<Rightarrow> pystr" where
  "int_str i = (if i < 0 then 45 # nat_digits (nat (- i)) else nat_digits (nat i))"

fun py_str :: "json \<Rightarrow> strval" where
  "py_str (JStr s) = Plain s"
| "py_str (JInt i) = Plain (int_str i)"
| "py_str (JBool b) = Plain (if b then lit ''True'' else lit ''False'')"
| "py_str JNull = Plain (lit ''None'')"
| "py_str v = Printed v"

fun py_int :: "strval \<Rightarrow> int option" where
  "py_int (Plain s) = (case to_ascii s of None \<Rightarrow> None | Some a \<Rightarrow> long_from_string a)"
| "py_int (Printed v) = None"

section \<open>\<^verbatim>\<open>json.loads\<close>\<close>

text \<open>
  The decoder of the \<^verbatim>\<open>json\<close> module (its C scanner, strict mode, no hooks): white space is
  blank, tab, line feed and carriage return; a string ends at the first unescaped quote and
  refuses control characters; a number is \<^verbatim>\<open>-?(0|[1-9][0-9]*)(\.[0-9]+)?([eE][-+]?[0-9]+)?\<close>,
  an \<^verbatim>\<open>int\<close> when it has neither fraction nor exponent; \<^verbatim>\<open>NaN\<close>, \<^verbatim>\<open>Infinity\<close> and
  \<^verbatim>\<open>-Infinity\<close> are accepted. Every syntax error is \<^verbatim>\<open>JSONDecodeError\<close>; an integer
  literal over the digit limit is \<^verbatim>\<open>ValueError\<close>, raised when the scanner reaches it.
\<close>

definition is_ws :: "nat \<Rightarrow> bool" where
  "is_ws c = (c = 32 \<or> c = 9 \<or> c = 10 \<or> c = 13)"

definition skip_ws :: "pystr \<Rightarrow> pystr" where
  "skip_ws cs = dropWhile is_ws cs"

definition hex_value :: "nat \<Rightarrow> nat option" where
  "hex_value c =
     (if 48 \<le> c \<and> c \<le> 57 then Some (c - 48)
      else if 97 \<le> c \<and> c \<le> 102 then Some (c - 87)
      else if 65 \<le> c \<and> c \<le> 70 then Some (c - 55)
      else None)"

definition decode_hex4 :: "pystr \<Rightarrow> nat option" where
  "decode_hex4 cs =
     (case cs of
        a # b # c # d # _ \<Rightarrow>
          (case (hex_value a, hex_value b, hex_value c, hex_value d) of
             (Some x, Some y, Some z, Some w) \<Rightarrow> Some (((x * 16 + y) * 16 + z) * 16 + w)
           | _ \<Rightarrow> None)
      | _ \<Rightarrow> None)"

definition backslash :: "nat \<Rightarrow> nat option" where
  "backslash e =
     (if e = 34 \<or> e = 92 \<or> e = 47 then Some e
      else if e = 98 then Some 8
      else if e = 102 then Some 12
      else if e = 110 then Some 10
      else if e = 114 then Some 13
      else if e = 116 then Some 9
      else None)"

definition cons_char :: "nat \<Rightarrow> error + (pystr \<times> pystr) \<Rightarrow> error + (pystr \<times> pystr)" where
  "cons_char c r = (case r of Inl e \<Rightarrow> Inl e | Inr (s, rest) \<Rightarrow> Inr (c # s, rest))"

text \<open>\<open>scanstring cs\<close>: \<open>cs\<close> is the text after the opening quote (34); 92 is the backslash.\<close>

function scanstring :: "pystr \<Rightarrow> error + (pystr \<times> pystr)" where
  "scanstring [] = Inl JSONDecodeError"
| "scanstring (c # cs) =
     (if c = 34 then Inr ([], cs)
      else if c = 92 then
        (case cs of
           [] \<Rightarrow> Inl JSONDecodeError
         | e # cs1 \<Rightarrow>
             if e = 117 then
               (case decode_hex4 cs1 of
                  None \<Rightarrow> Inl JSONDecodeError
                | Some uni \<Rightarrow>
                    if 0xD800 \<le> uni \<and> uni \<le> 0xDBFF \<and> startswith (drop 4 cs1) [92, 117] then
                      (case decode_hex4 (drop 6 cs1) of
                         None \<Rightarrow> Inl JSONDecodeError
                       | Some uni2 \<Rightarrow>
                           if 0xDC00 \<le> uni2 \<and> uni2 \<le> 0xDFFF
                           then cons_char (0x10000 + (uni - 0xD800) * 1024 + (uni2 - 0xDC00))
                                  (scanstring (drop 10 cs1))
                           else cons_char uni (scanstring (drop 4 cs1)))
                    else cons_char uni (scanstring (drop 4 cs1)))
             else
               (case backslash e of
                  None \<Rightarrow> Inl JSONDecodeError
                | Some ch \<Rightarrow> cons_char ch (scanstring cs1)))
      else if c \<le> 31 then Inl JSONDecodeError
      else cons_char c (scanstring cs))"
  by pat_completeness auto
termination
  by (relation "measure length") auto

definition exponent :: "pystr \<Rightarrow> pystr" where
  "exponent cs =
     (case cs of
        [] \<Rightarrow> []
      | e # r \<Rightarrow>
          if e = 101 \<or> e = 69 then
            (let sg = (if r \<noteq> [] \<and> (hd r = 43 \<or> hd r = 45) then [hd r] else []);
                 ds = takeWhile is_digit (drop (length sg) r)
             in if ds = [] then [] else e # sg @ ds)
          else [])"

definition fraction :: "pystr \<Rightarrow> pystr" where
  "fraction cs =
     (case cs of
        d # f # r \<Rightarrow> if d = 46 \<and> is_digit f then d # f # takeWhile is_digit r else []
      | _ \<Rightarrow> [])"

definition int_part :: "pystr \<Rightarrow> pystr" where
  "int_part cs =
     (case cs of
        [] \<Rightarrow> []
      | c # r \<Rightarrow>
          if \<not> is_digit c then []
          else if c = 48 then [c]
          else c # takeWhile is_digit r)"

text \<open>
  The number at the head of \<open>cs\<close>: sign, integer part, fraction and exponent are the four
  pieces of the text that the scanner consumes, each possibly empty but the integer part.
\<close>

definition match_number :: "pystr \<Rightarrow> error + (json \<times> pystr)" where
  "match_number cs =
     (let sign = (if startswith cs [45] then [45] else []);
          ip = int_part (drop (length sign) cs);
          frac = fraction (drop (length (sign @ ip)) cs);
          ex = exponent (drop (length (sign @ ip @ frac)) cs);
          rest = drop (length (sign @ ip @ frac @ ex)) cs
      in if ip = [] then Inl JSONDecodeError
         else if frac = [] \<and> ex = [] then
           (if int_max_str_digits < length ip then Inl ValueError
            else Inr (JInt (if sign = [] then digits_value ip else - digits_value ip), rest))
         else Inr (JFloat (sign @ ip @ frac @ ex), rest))"

text \<open>\<^verbatim>\<open>d[key] = value\<close>: a new key goes to the end, a known key keeps its place.\<close>

definition dict_set :: "(pystr \<times> json) list \<Rightarrow> pystr \<Rightarrow> json \<Rightarrow> (pystr \<times> json) list" where
  "dict_set d k v =
     (if k \<in> fst ` set d then map (\<lambda>(k', v'). if k' = k then (k', v) else (k', v')) d
      else d @ [(k, v)])"

text \<open>
  The recursive descent. The first argument bounds the number of nested calls, which makes
  the recursion structural; \<open>json_loads\<close> passes more than any text can use, so
  \<open>OutOfFuel\<close> is never the result of \<open>json_loads\<close> (lemma \<open>json_loads_fuel\<close> below).
  \<open>parse_object\<close> and \<open>parse_array\<close> start at the first key and at the first item, after
  the white space that follows the opening bracket.
\<close>

fun scan_once :: "nat \<Rightarrow> pystr \<Rightarrow> error + (json \<times> pystr)"
  and parse_object :: "nat \<Rightarrow> (pystr \<times> json) list \<Rightarrow> pystr \<Rightarrow> error + (json \<times> pystr)"
  and parse_array :: "nat \<Rightarrow> json list \<Rightarrow> pystr \<Rightarrow> error + (json \<times> pystr)"
where
  "scan_once 0 cs = Inl OutOfFuel"
| "scan_once (Suc n) [] = Inl JSONDecodeError"
| "scan_once (Suc n) (c # cs) =
     (if c = 34 then
        (case scanstring cs of Inl e \<Rightarrow> Inl e | Inr (s, rest) \<Rightarrow> Inr (JStr s, rest))
      else if c = 123 then
        (let cs1 = skip_ws cs
         in if startswith cs1 [125] then Inr (JObject [], tl cs1) else parse_object n [] cs1)
      else if c = 91 then
        (let cs1 = skip_ws cs
         in if startswith cs1 [93] then Inr (JArray [], tl cs1) else parse_array n [] cs1)
      else if startswith (c # cs) (lit ''null'') then Inr (JNull, drop 3 cs)
      else if startswith (c # cs) (lit ''true'') then Inr (JBool True, drop 3 cs)
      else if startswith (c # cs) (lit ''false'') then Inr (JBool False, drop 4 cs)
      else if startswith (c # cs) (lit ''NaN'') then Inr (JFloat (lit ''NaN''), drop 2 cs)
      else if startswith (c # cs) (lit ''Infinity'') then Inr (JFloat (lit ''Infinity''), drop 7 cs)
      else if startswith (c # cs) (lit ''-Infinity'') then Inr (JFloat (lit ''-Infinity''), drop 8 cs)
      else match_number (c # cs))"
| "parse_object 0 acc cs = Inl OutOfFuel"
| "parse_object (Suc n) acc cs =
     (if \<not> startswith cs [34] then Inl JSONDecodeError
      else
        (case scanstring (tl cs) of
           Inl e \<Rightarrow> Inl e
         | Inr (key, cs2) \<Rightarrow>
             (let cs3 = skip_ws cs2
              in if \<not> startswith cs3 [58] then Inl JSONDecodeError
                 else
                   (case scan_once n (skip_ws (tl cs3)) of
                      Inl e \<Rightarrow> Inl e
                    | Inr (val, cs4) \<Rightarrow>
                        (let acc' = dict_set acc key val;
                             cs5 = skip_ws cs4
                         in if startswith cs5 [125] then Inr (JObject acc', tl cs5)
                            else if startswith cs5 [44] then parse_object n acc' (skip_ws (tl cs5))
                            else Inl JSONDecodeError)))))"
| "parse_array 0 acc cs = Inl OutOfFuel"
| "parse_array (Suc n) acc cs =
     (case scan_once n cs of
        Inl e \<Rightarrow> Inl e
      | Inr (val, cs1) \<Rightarrow>
          (let acc' = acc @ [val];
               cs2 = skip_ws cs1
           in if startswith cs2 [93] then Inr (JArray acc', tl cs2)
              else if startswith cs2 [44] then parse_array n acc' (skip_ws (tl cs2))
              else Inl JSONDecodeError))"

definition json_loads :: "pystr \<Rightarrow> error + json" where
  "json_loads s =
     (if startswith s [0xFEFF] then Inl JSONDecodeError
      else
        (case scan_once (Suc (2 * length s)) (skip_ws s) of
           Inl e \<Rightarrow> Inl e
         | Inr (v, rest) \<Rightarrow> if skip_ws rest = [] then Inr v else Inl JSONDecodeError))"

section \<open>The notebook\<close>

subsection \<open>\<^verbatim>\<open>load_json_files\<close>\<close>

text \<open>
  A directory is what \<^verbatim>\<open>os.listdir\<close> returns, in its order, each name with what
  \<^verbatim>\<open>open(...).read()\<close> gives for it: the text of the file, or the error raised (the entry
  is a directory, the file cannot be read or decoded).
  \<^verbatim>\<open>data.extend(x)\<close> appends the items of a list, the keys of a dict and the characters of
  a string, and raises \<^verbatim>\<open>TypeError\<close> for a value that is not iterable.
\<close>

type_synonym directory = "(pystr \<times> (error + pystr)) list"

definition extend :: "json list \<Rightarrow> json \<Rightarrow> error + json list" where
  "extend data x =
     (case x of
        JArray xs \<Rightarrow> Inr (data @ xs)
      | JObject d \<Rightarrow> Inr (data @ map (\<lambda>(k, v). JStr k) d)
      | JStr s \<Rightarrow> Inr (data @ map (\<lambda>c. JStr [c]) s)
      | _ \<Rightarrow> Inl TypeError)"

fun load_loop :: "directory \<Rightarrow> json list \<Rightarrow> error + json list" where
  "load_loop [] data = Inr data"
| "load_loop ((filename, content) # rest) data =
     (if endswith filename (lit ''.json'') then
        (case content of
           Inl e \<Rightarrow> Inl e
         | Inr text \<Rightarrow>
             (case json_loads text of
                Inl e \<Rightarrow> Inl e
              | Inr x \<Rightarrow>
                  (case extend data x of
                     Inl e \<Rightarrow> Inl e
                   | Inr data' \<Rightarrow> load_loop rest data')))
      else load_loop rest data)"

definition load_json_files :: "directory \<Rightarrow> error + json list" where
  "load_json_files directory = load_loop directory []"

subsection \<open>\<^verbatim>\<open>parse_response\<close>\<close>

text \<open>
  The argument is whatever \<^verbatim>\<open>sample['response']\<close> holds; \<^verbatim>\<open>re.search\<close> raises
  \<^verbatim>\<open>TypeError\<close> unless it is a string. Only \<^verbatim>\<open>json.JSONDecodeError\<close> is caught. The result
  \<open>Inr None\<close> is the Python \<^verbatim>\<open>None\<close>, \<open>Inr (Some fm)\<close> the dict of stringified values.
\<close>

type_synonym feature_map = "(pystr \<times> strval) list"

definition stringify :: "json \<Rightarrow> strval" where
  "stringify v = (if v \<noteq> JNull then py_str v else Plain (lit ''0''))"

definition parse_response :: "json \<Rightarrow> error + feature_map option" where
  "parse_response response_str =
     (case response_str of
        JStr s \<Rightarrow>
          (case re_search s of
             Some m \<Rightarrow>
               (case json_loads m of
                  Inr (JObject response_dict) \<Rightarrow>
                    Inr (Some (map (\<lambda>(k, v). (k, stringify v)) response_dict))
                | Inr _ \<Rightarrow> Inl AttributeError
                | Inl JSONDecodeError \<Rightarrow> Inr None
                | Inl e \<Rightarrow> Inl e)
           | None \<Rightarrow> Inr None)
      | _ \<Rightarrow> Inl TypeError)"

subsection \<open>\<^verbatim>\<open>filter_samples\<close>\<close>

text \<open>\<^verbatim>\<open>sample['response']\<close>: \<^verbatim>\<open>KeyError\<close> on a dict without the key, \<^verbatim>\<open>TypeError\<close> on a
  sample that is not a dict.\<close>

definition get_response :: "json \<Rightarrow> error + json" where
  "get_response sample =
     (case sample of
        JObject d \<Rightarrow>
          (case map_of d (lit ''response'') of None \<Rightarrow> Inl KeyError | Some v \<Rightarrow> Inr v)
      | _ \<Rightarrow> Inl TypeError)"

text \<open>
  \<^verbatim>\<open>any(int(value) != 0 ... for value in response.values())\<close>: the values are read in dict
  order and \<^verbatim>\<open>any\<close> stops at the first true item, so a value after it is never converted.
  The values are strings, never \<^verbatim>\<open>None\<close>, so the \<^verbatim>\<open>else False\<close> arm is not taken.
\<close>

fun any_nonzero :: "strval list \<Rightarrow> error + bool" where
  "any_nonzero [] = Inr False"
| "any_nonzero (v # vs) =
     (case py_int v of
        None \<Rightarrow> Inl ValueError
      | Some i \<Rightarrow> if i \<noteq> 0 then Inr True else any_nonzero vs)"

text \<open>The condition of the \<^verbatim>\<open>if\<close>: \<^verbatim>\<open>None\<close> and the empty dict are false.\<close>

definition keep :: "feature_map option \<Rightarrow> error + bool" where
  "keep response =
     (case response of
        None \<Rightarrow> Inr False
      | Some fm \<Rightarrow> if fm = [] then Inr False else any_nonzero (map snd fm))"

fun filter_loop ::
  "json list \<Rightarrow> json list \<Rightarrow> json list \<Rightarrow> error + (json list \<times> json list)"
where
  "filter_loop [] filtered_data removed_samples = Inr (filtered_data, removed_samples)"
| "filter_loop (sample # data) filtered_data removed_samples =
     (case get_response sample of
        Inl e \<Rightarrow> Inl e
      | Inr r \<Rightarrow>
          (case parse_response r of
             Inl e \<Rightarrow> Inl e
           | Inr response \<Rightarrow>
               (case keep response of
                  Inl e \<Rightarrow> Inl e
                | Inr True \<Rightarrow> filter_loop data (filtered_data @ [sample]) removed_samples
                | Inr False \<Rightarrow> filter_loop data filtered_data (removed_samples @ [sample]))))"

definition filter_samples :: "json list \<Rightarrow> error + (json list \<times> json list)" where
  "filter_samples data = filter_loop data [] []"

subsection \<open>The cells that run\<close>

text \<open>
  Cell 3 loads \<^verbatim>\<open>all_samples\<close>; cell 5 writes \<^verbatim>\<open>json.dump(all_samples, f, indent=2)\<close> to
  \<^verbatim>\<open>merged_data.json\<close>. No cell calls \<^verbatim>\<open>filter_samples\<close>. \<open>merged_data\<close> is the array
  that the output file holds after the run.
\<close>

definition merged_data :: "directory \<Rightarrow> error + json list" where
  "merged_data data_directory =
     (case load_json_files data_directory of
        Inl e \<Rightarrow> Inl e
      | Inr all_samples \<Rightarrow> Inr all_samples)"

section \<open>Notions used to state the properties\<close>

text \<open>
  The body of the loop of \<^verbatim>\<open>filter_samples\<close> decides each sample on its own: it raises, or
  it keeps the sample (\<open>Inr True\<close>), or it removes it (\<open>Inr False\<close>).
\<close>

definition decision :: "json \<Rightarrow> error + bool" where
  "decision sample =
     (case get_response sample of
        Inl e \<Rightarrow> Inl e
      | Inr r \<Rightarrow> (case parse_response r of Inl e \<Rightarrow> Inl e | Inr response \<Rightarrow> keep response))"

text \<open>
  \<open>closes s i j\<close>: position \<open>i\<close> of \<open>s\<close> holds an opening brace, position \<open>j\<close> a closing
  brace, \<open>i\<close> is before \<open>j\<close> and no line feed lies between them (both are on one line).
  \<open>start_ok s i\<close>: the pattern matches at position \<open>i\<close>.
\<close>

definition closes :: "pystr \<Rightarrow> nat \<Rightarrow> nat \<Rightarrow> bool" where
  "closes s i j =
     (i < j \<and> j < length s \<and> s ! i = 123 \<and> s ! j = 125 \<and> 10 \<notin> set (take (j - Suc i) (drop (Suc i) s)))"

definition start_ok :: "pystr \<Rightarrow> nat \<Rightarrow> bool" where
  "start_ok s i = (i < length s \<and> s ! i = 123 \<and> 125 \<in> set (takeWhile (\<lambda>c. c \<noteq> 10) (drop (Suc i) s)))"

text \<open>A sample record with the three fields of the data set and the given response text.\<close>

definition sample_of :: "pystr \<Rightarrow> json" where
  "sample_of text =
     JObject [(lit ''instruction'', JStr (lit ''Analyse.'')), (lit ''input'', JStr []),
              (lit ''response'', JStr text)]"

text \<open>Notions for the claims on the input text and the loader.\<close>

text \<open>
  \<open>plain_text pre post\<close>: the prose around an embedded object does not disturb the match:
  no opening brace before the object, no closing brace after it on the same line.
  \<open>long_digits\<close> is a run of 4301 digits, one more than the conversion limit.
  A directory entry is \<open>json_named\<close> when its name ends in \<^verbatim>\<open>.json\<close>; \<open>samples_in\<close> is the
  array it holds, when its text is a JSON array; it is \<open>malformed\<close> when \<^verbatim>\<open>json.load\<close>
  raises on its text. \<open>dir_ok\<close> and \<open>dir_bad\<close> are two small directories.
\<close>

definition plain_text :: "pystr \<Rightarrow> pystr \<Rightarrow> bool" where
  "plain_text pre post = (123 \<notin> set pre \<and> 125 \<notin> set (takeWhile (\<lambda>c. c \<noteq> 10) post))"

definition long_digits :: pystr where
  "long_digits = replicate 4301 49"

definition json_named :: "pystr \<times> (error + pystr) \<Rightarrow> bool" where
  "json_named entry = endswith (fst entry) (lit ''.json'')"

definition samples_in :: "pystr \<times> (error + pystr) \<Rightarrow> json list option" where
  "samples_in entry =
     (case snd entry of
        Inl e \<Rightarrow> None
      | Inr text \<Rightarrow> (case json_loads text of Inr (JArray xs) \<Rightarrow> Some xs | _ \<Rightarrow> None))"

definition malformed :: "pystr \<times> (error + pystr) \<Rightarrow> bool" where
  "malformed entry =
     (json_named entry \<and>
      (case snd entry of Inl e \<Rightarrow> False | Inr text \<Rightarrow> isl (json_loads text)))"

definition dir_ok :: directory where
  \<open>dir_ok =
     [(lit ''aapl.json'', Inr (lit ''[{"response": "x"}]'')),
      (lit ''notes.txt'', Inr (lit ''hello'')),
      (lit ''msft.json'', Inr (lit ''[{"response": "y"}, {"response": "z"}]''))]\<close>

definition dir_bad :: directory where
  \<open>dir_bad =
     [(lit ''aapl.json'', Inr (lit ''[{"response": "x"}]'')),
      (lit ''tsla.json'', Inr (lit ''[{"response": '')),
      (lit ''msft.json'', Inr (lit ''[]''))]\<close>

section \<open>Evaluation and basic lemmas\<close>

text \<open>The equations of the decoder are stated for \<open>Suc n\<close>; these let them fire on numerals.\<close>

lemmas scan_once_numeral =
  scan_once.simps(2,3) [of "pred_numeral k", folded numeral_eq_Suc] for k

lemmas parse_object_numeral =
  parse_object.simps(2) [of "pred_numeral k", folded numeral_eq_Suc] for k

lemmas parse_array_numeral =
  parse_array.simps(2) [of "pred_numeral k", folded numeral_eq_Suc] for k

lemmas json_eval = json_loads_def lit_def startswith_def skip_ws_def is_ws_def match_number_def
  int_part_def   is_digit_def fraction_def exponent_def dict_set_def digits_value_def int_max_str_digits_def
  cons_char_def backslash_def decode_hex4_def hex_value_def
  scan_once_numeral parse_object_numeral parse_array_numeral

lemmas filter_eval = filter_samples_def get_response_def parse_response_def dot_star_brace_def
  keep_def stringify_def long_from_string_def ascii_space_def int_str_def sample_of_def

subsection \<open>The loop of \<^verbatim>\<open>filter_samples\<close>\<close>

lemma filter_loop_step:
  "filter_loop (sample # data) f r =
     (case decision sample of
        Inl e \<Rightarrow> Inl e
      | Inr b \<Rightarrow> if b then filter_loop data (f @ [sample]) r else filter_loop data f (r @ [sample]))"
  by (simp add: decision_def split: sum.splits bool.splits)

lemma filter_loop_Inr:
  "filter_loop data f r = Inr (f', r') \<longleftrightarrow>
     (\<forall>s \<in> set data. \<exists>b. decision s = Inr b) \<and>
     f' = f @ filter (\<lambda>s. decision s = Inr True) data \<and>
     r' = r @ filter (\<lambda>s. decision s = Inr False) data"
proof (induction data arbitrary: f r)
  case Nil
  show ?case by auto
next
  case (Cons s data)
  show ?case
  proof (cases "decision s")
    case (Inl e)
    then show ?thesis by (simp add: filter_loop_step del: filter_loop.simps)
  next
    case (Inr b)
    then show ?thesis
      by (cases b) (auto simp add: filter_loop_step Cons.IH simp del: filter_loop.simps)
  qed
qed


lemma filter_loop_raises:
  assumes "s \<in> set data" and "decision s = Inl e"
  shows "\<exists>e'. filter_loop data f r = Inl e'"
proof (cases "filter_loop data f r")
  case (Inl e') then show ?thesis by blast
next
  case (Inr p)
  obtain f' r' where "p = (f', r')" by (cases p)
  with Inr have "\<forall>s \<in> set data. \<exists>b. decision s = Inr b" by (simp add: filter_loop_Inr)
  with assms show ?thesis by auto
qed

lemma decision_False_removed:
  assumes "decision sample = Inr False" and "sample \<in> set data"
    and "filter_samples data = Inr (retained, removed)"
  shows "sample \<in> set removed \<and> sample \<notin> set retained"
  using assms by (auto simp: filter_samples_def filter_loop_Inr)

lemma decision_True_retained:
  assumes "decision sample = Inr True" and "sample \<in> set data"
    and "filter_samples data = Inr (retained, removed)"
  shows "sample \<in> set retained \<and> sample \<notin> set removed"
  using assms by (auto simp: filter_samples_def filter_loop_Inr)

lemma filter_samples_single:
  "filter_samples [sample] =
     (case decision sample of
        Inl e \<Rightarrow> Inl e
      | Inr b \<Rightarrow> if b then Inr ([sample], []) else Inr ([], [sample]))"
  by (simp add: filter_samples_def filter_loop_step split: sum.splits del: filter_loop.simps(2))

subsection \<open>The pattern\<close>

lemma line_has_brace:
  "125 \<in> set (takeWhile (\<lambda>c. c \<noteq> 10) cs) \<longleftrightarrow>
     (\<exists>n. n < length cs \<and> cs ! n = (125::nat) \<and> 10 \<notin> set (take n cs))"
proof
  assume "125 \<in> set (takeWhile (\<lambda>c. c \<noteq> 10) cs)"
  then obtain n where n: "n < length (takeWhile (\<lambda>c. c \<noteq> 10) cs)"
    and v: "takeWhile (\<lambda>c. c \<noteq> 10) cs ! n = 125"
    by (auto simp: in_set_conv_nth)
  have le: "length (takeWhile (\<lambda>c. c \<noteq> 10) cs) \<le> length cs" by (rule length_takeWhile_le)
  have "cs ! n = 125" using n v by (simp add: takeWhile_nth)
  moreover have "10 \<notin> set (take n cs)"
  proof
    assume "10 \<in> set (take n cs)"
    then obtain k where "k < n" "k < length cs" "cs ! k = 10"
      by (auto simp: in_set_conv_nth)
    with n have "takeWhile (\<lambda>c. c \<noteq> 10) cs ! k = 10" by (simp add: takeWhile_nth)
    moreover have "takeWhile (\<lambda>c. c \<noteq> 10) cs ! k \<in> set (takeWhile (\<lambda>c. c \<noteq> 10) cs)"
      using \<open>k < n\<close> n by simp
    ultimately show False by (auto dest: set_takeWhileD)
  qed
  moreover have "n < length cs" using n le by simp
  ultimately show "\<exists>n. n < length cs \<and> cs ! n = 125 \<and> 10 \<notin> set (take n cs)"
    by blast
next
  assume "\<exists>n. n < length cs \<and> cs ! n = 125 \<and> 10 \<notin> set (take n cs)"
  then obtain n where n: "n < length cs" and v: "cs ! n = 125" and t: "10 \<notin> set (take n cs)"
    by blast
  have "cs = take n cs @ cs ! n # drop (Suc n) cs"
    using n by (simp add: id_take_nth_drop)
  then have "takeWhile (\<lambda>c. c \<noteq> 10) cs
      = takeWhile (\<lambda>c. c \<noteq> 10) (take n cs @ 125 # drop (Suc n) cs)"
    using v by simp
  also have "\<dots> = take n cs @ takeWhile (\<lambda>c. c \<noteq> 10) (125 # drop (Suc n) cs)"
    using t by (intro takeWhile_append2) auto
  finally show "125 \<in> set (takeWhile (\<lambda>c. c \<noteq> 10) cs)" by simp
qed

lemma dot_star_brace_None:
  "dot_star_brace cs = None \<longleftrightarrow> 125 \<notin> set (takeWhile (\<lambda>c. c \<noteq> 10) cs)"
  by (simp add: dot_star_brace_def Let_def)


lemma closes_shift:
  "closes s i j \<longleftrightarrow>
     (i < length s \<and> s ! i = 123 \<and> Suc i \<le> j \<and>
      j - Suc i < length (drop (Suc i) s) \<and> drop (Suc i) s ! (j - Suc i) = 125 \<and>
      10 \<notin> set (take (j - Suc i) (drop (Suc i) s)))"
  by (auto simp: closes_def)

lemma start_ok_iff: "start_ok s i \<longleftrightarrow> (\<exists>j. closes s i j)"
proof
  assume "start_ok s i"
  then have i: "i < length s" "s ! i = 123"
    and "125 \<in> set (takeWhile (\<lambda>c. c \<noteq> 10) (drop (Suc i) s))"
    by (simp_all add: start_ok_def)
  then obtain n where "n < length (drop (Suc i) s)" "drop (Suc i) s ! n = 125"
    "10 \<notin> set (take n (drop (Suc i) s))"
    unfolding line_has_brace by blast
  with i have "closes s i (Suc i + n)" unfolding closes_shift by simp
  then show "\<exists>j. closes s i j" ..
next
  assume "\<exists>j. closes s i j"
  then obtain j where "closes s i j" ..
  then show "start_ok s i"
    unfolding closes_shift start_ok_def line_has_brace by blast
qed

lemma re_search_None: "re_search s = None \<longleftrightarrow> (\<forall>i. \<not> start_ok s i)"
proof (induction s)
  case Nil
  show ?case by (simp add: start_ok_def)
next
  case (Cons c cs)
  have z: "start_ok (c # cs) 0 \<longleftrightarrow> c = 123 \<and> dot_star_brace cs \<noteq> None"
    by (simp add: start_ok_def dot_star_brace_None)
  have s: "start_ok (c # cs) (Suc i) \<longleftrightarrow> start_ok cs i" for i
    by (simp add: start_ok_def)
  have all: "(\<forall>i. \<not> start_ok (c # cs) i) \<longleftrightarrow> \<not> start_ok (c # cs) 0 \<and> (\<forall>i. \<not> start_ok cs i)"
    using s by (metis nat.exhaust)
  show ?case unfolding all z using Cons.IH by (auto split: option.splits)
qed

lemma re_search_Some:
  assumes "re_search s = Some m"
  shows "\<exists>i. start_ok s i \<and> (\<forall>i'. start_ok s i' \<longrightarrow> i \<le> i')
            \<and> (\<exists>m'. dot_star_brace (drop (Suc i) s) = Some m' \<and> m = 123 # m')"
  using assms
proof (induction s)
  case Nil
  then show ?case by simp
next
  case (Cons c cs)
  have z: "start_ok (c # cs) 0 \<longleftrightarrow> c = 123 \<and> dot_star_brace cs \<noteq> None"
    by (simp add: start_ok_def dot_star_brace_None)
  have s: "start_ok (c # cs) (Suc i) \<longleftrightarrow> start_ok cs i" for i
    by (simp add: start_ok_def)
  show ?case
  proof (cases "start_ok (c # cs) 0")
    case True
    with z obtain m' where m': "dot_star_brace cs = Some m'" and c: "c = 123" by auto
    with Cons.prems have "m = 123 # m'" by simp
    with True m' have "start_ok (c # cs) 0 \<and> (\<forall>i'. start_ok (c # cs) i' \<longrightarrow> 0 \<le> i')
        \<and> (\<exists>m'. dot_star_brace (drop (Suc 0) (c # cs)) = Some m' \<and> m = 123 # m')"
      by simp
    then show ?thesis by blast
  next
    case False
    with z have "re_search (c # cs) = re_search cs" by (auto split: option.splits)
    with Cons.prems have "re_search cs = Some m" by simp
    from Cons.IH [OF this] obtain i m' where i: "start_ok cs i"
      and mn: "\<forall>i'. start_ok cs i' \<longrightarrow> i \<le> i'"
      and m': "dot_star_brace (drop (Suc i) cs) = Some m'" "m = 123 # m'" by blast
    have "\<forall>i'. start_ok (c # cs) i' \<longrightarrow> Suc i \<le> i'"
    proof (intro allI impI)
      fix i' assume a: "start_ok (c # cs) i'"
      with False obtain k where k: "i' = Suc k" by (cases i') auto
      with a s have "start_ok cs k" by simp
      with mn k show "Suc i \<le> i'" by simp
    qed
    moreover have "start_ok (c # cs) (Suc i)" using i s by simp
    moreover have "dot_star_brace (drop (Suc (Suc i)) (c # cs)) = Some m'" using m' by simp
    ultimately show ?thesis using m'(2) by blast
  qed
qed

subsection \<open>The decoder\<close>

lemma length_skip_ws: "length (skip_ws cs) \<le> length cs"
  by (simp add: skip_ws_def length_dropWhile_le)

lemma startswith_single: "startswith cs [c] \<longleftrightarrow> cs \<noteq> [] \<and> hd cs = c"
  by (cases cs) (simp_all add: startswith_def)

lemma cons_char_Inr:
  "cons_char c r = Inr (s, rest) \<longleftrightarrow> (\<exists>s'. r = Inr (s', rest) \<and> s = c # s')"
  by (auto simp: cons_char_def split: sum.splits)

lemma cons_char_Inl: "cons_char c r = Inl e \<longleftrightarrow> r = Inl e"
  by (auto simp: cons_char_def split: sum.splits)

lemma scanstring_shorter: "scanstring cs = Inr (s, rest) \<Longrightarrow> length rest < length cs"
proof (induction "length cs" arbitrary: cs s rule: less_induct)
  case less
  have IH: "scanstring cs' = Inr (s', rest) \<Longrightarrow> length cs' < length cs \<Longrightarrow> length rest < length cs'"
    for cs' s' using less.hyps by blast
  show ?case
  proof (cases cs)
    case Nil
    with less.prems show ?thesis by simp
  next
    case (Cons c cs')
    with less.prems IH show ?thesis
      by (fastforce simp: cons_char_Inr split: if_splits list.splits option.splits)
  qed
qed

lemma scanstring_error: "scanstring cs = Inl e \<Longrightarrow> e = JSONDecodeError"
proof (induction "length cs" arbitrary: cs rule: less_induct)
  case less
  have IH: "scanstring cs' = Inl e \<Longrightarrow> length cs' < length cs \<Longrightarrow> e = JSONDecodeError"
    for cs' using less.hyps by blast
  show ?case
  proof (cases cs)
    case Nil
    with less.prems show ?thesis by simp
  next
    case (Cons c cs')
    with less.prems IH show ?thesis
      by (fastforce simp: cons_char_Inl split: if_splits list.splits option.splits)
  qed
qed

lemma int_part_Nil: "int_part [] = []"
  by (simp add: int_part_def)

lemma match_number_shorter:
  assumes "match_number cs = Inr (v, rest)"
  shows "length rest < length cs"
proof -
  define sign where "sign = (if startswith cs [45] then [45::nat] else [])"
  define ip where "ip = int_part (drop (length sign) cs)"
  define k where "k = length (sign @ ip @ fraction (drop (length (sign @ ip)) cs)
     @ exponent (drop (length (sign @ ip @ fraction (drop (length (sign @ ip)) cs))) cs))"
  from assms have ip: "ip \<noteq> []" and rest: "rest = drop k cs"
    by (auto simp: match_number_def Let_def sign_def ip_def k_def split: if_splits)
  from ip have "drop (length sign) cs \<noteq> []"
    unfolding ip_def using int_part_Nil by metis
  then have "cs \<noteq> []" by auto
  moreover from ip have "0 < k" by (simp add: k_def)
  ultimately show ?thesis using rest by simp
qed

lemma match_number_error:
  "match_number cs = Inl e \<Longrightarrow> e = JSONDecodeError \<or> e = ValueError"
  by (auto simp: match_number_def Let_def split: if_splits)

lemma parser_shorter:
  "(\<forall>cs v rest. scan_once n cs = Inr (v, rest) \<longrightarrow> length rest < length cs) \<and>
   (\<forall>acc cs v rest. parse_object n acc cs = Inr (v, rest) \<longrightarrow> length rest < length cs) \<and>
   (\<forall>acc cs v rest. parse_array n acc cs = Inr (v, rest) \<longrightarrow> length rest < length cs)"
proof (induction n)
  case 0
  show ?case by simp
next
  case (Suc n)
  then have so: "scan_once n cs = Inr (v, rest) \<Longrightarrow> length rest < length cs"
    and po: "parse_object n acc cs = Inr (v, rest) \<Longrightarrow> length rest < length cs"
    and pa: "parse_array n acc' cs = Inr (v, rest) \<Longrightarrow> length rest < length cs"
    for cs v rest acc acc' by blast+
  have 1: "length rest < length cs" if "scan_once (Suc n) cs = Inr (v, rest)" for cs v rest
  proof (cases cs)
    case Nil
    with that show ?thesis by simp
  next
    case (Cons c cs')
    have sk: "length (skip_ws cs') \<le> length cs'" by (rule length_skip_ws)
    have tl: "length (tl (skip_ws cs')) \<le> length cs'"
      using sk by simp
    from that Cons show ?thesis
      using sk tl
      by (auto simp: Let_def split: if_splits sum.splits
               dest!: scanstring_shorter match_number_shorter po pa)
  qed
  have 2: "length rest < length cs" if "parse_object (Suc n) acc cs = Inr (v, rest)"
    for acc cs v rest
  proof -
    from that obtain key cs2 val cs4 where
      q: "startswith cs [34]" and k: "scanstring (tl cs) = Inr (key, cs2)"
      and c: "startswith (skip_ws cs2) [58]"
      and v: "scan_once n (skip_ws (tl (skip_ws cs2))) = Inr (val, cs4)"
      and r: "rest = tl (skip_ws cs4) \<or>
              parse_object n (dict_set acc key val) (skip_ws (tl (skip_ws cs4))) = Inr (v, rest)"
      by (auto simp: Let_def split: if_splits sum.splits)
    have a: "length cs2 < length (tl cs)" using k by (rule scanstring_shorter)
    have b: "length cs4 < length (skip_ws (tl (skip_ws cs2)))" using v by (rule so)
    have "length (skip_ws (tl (skip_ws cs2))) \<le> length cs2"
      using length_skip_ws [of "tl (skip_ws cs2)"] length_skip_ws [of cs2] by simp
    with a b have c4: "length cs4 < length cs" by simp
    from r show ?thesis
    proof
      assume "rest = tl (skip_ws cs4)"
      then show ?thesis using c4 length_skip_ws [of cs4] by simp
    next
      assume "parse_object n (dict_set acc key val) (skip_ws (tl (skip_ws cs4))) = Inr (v, rest)"
      then have "length rest < length (skip_ws (tl (skip_ws cs4)))" by (rule po)
      then show ?thesis
        using c4 length_skip_ws [of "tl (skip_ws cs4)"] length_skip_ws [of cs4] by simp
    qed
  qed
  have 3: "length rest < length cs" if "parse_array (Suc n) acc cs = Inr (v, rest)"
    for acc cs v rest
  proof -
    from that obtain val cs1 where
      v: "scan_once n cs = Inr (val, cs1)"
      and r: "rest = tl (skip_ws cs1) \<or>
              parse_array n (acc @ [val]) (skip_ws (tl (skip_ws cs1))) = Inr (v, rest)"
      by (auto simp: Let_def split: if_splits sum.splits)
    have c1: "length cs1 < length cs" using v by (rule so)
    from r show ?thesis
    proof
      assume "rest = tl (skip_ws cs1)"
      then show ?thesis using c1 length_skip_ws [of cs1] by simp
    next
      assume "parse_array n (acc @ [val]) (skip_ws (tl (skip_ws cs1))) = Inr (v, rest)"
      then have "length rest < length (skip_ws (tl (skip_ws cs1)))" by (rule pa)
      then show ?thesis
        using c1 length_skip_ws [of "tl (skip_ws cs1)"] length_skip_ws [of cs1] by simp
    qed
  qed
  from 1 2 3 show ?case by blast
qed


lemma parser_fuel:
  "(\<forall>cs. 2 * length cs < n \<longrightarrow> scan_once n cs \<noteq> Inl OutOfFuel) \<and>
   (\<forall>acc cs. 2 * length cs < n \<longrightarrow> parse_object n acc cs \<noteq> Inl OutOfFuel) \<and>
   (\<forall>acc cs. 2 * length cs + 1 < n \<longrightarrow> parse_array n acc cs \<noteq> Inl OutOfFuel)"
proof (induction n)
  case 0
  show ?case by simp
next
  case (Suc n)
  then have so: "2 * length cs < n \<Longrightarrow> scan_once n cs \<noteq> Inl OutOfFuel"
    and po: "2 * length cs < n \<Longrightarrow> parse_object n acc cs \<noteq> Inl OutOfFuel"
    and pa: "2 * length cs + 1 < n \<Longrightarrow> parse_array n acc' cs \<noteq> Inl OutOfFuel"
    for cs acc acc' by blast+
  have sh: "scan_once n cs = Inr (v, rest) \<Longrightarrow> length rest < length cs" for cs v rest
    using parser_shorter [of n] by blast
  have 1: "scan_once (Suc n) cs \<noteq> Inl OutOfFuel" if f: "2 * length cs < Suc n" for cs
  proof (cases cs)
    case Nil
    then show ?thesis by simp
  next
    case (Cons c cs')
    have sk: "length (skip_ws cs') \<le> length cs'" by (rule length_skip_ws)
    from f Cons sk have f1: "2 * length (skip_ws cs') < n"
      and f2: "2 * length (skip_ws cs') + 1 < n"
      by simp_all
    have "parse_object n [] (skip_ws cs') \<noteq> Inl OutOfFuel"
      "parse_array n [] (skip_ws cs') \<noteq> Inl OutOfFuel"
      using po [OF f1] pa [OF f2] by blast+
    then show ?thesis
      using Cons
      by (auto simp: Let_def split: sum.splits dest: scanstring_error match_number_error)
  qed
  have 2: "parse_object (Suc n) acc cs \<noteq> Inl OutOfFuel" if f: "2 * length cs < Suc n"
    for acc cs
  proof
    assume o: "parse_object (Suc n) acc cs = Inl OutOfFuel"
    have ns: "scanstring (tl cs) \<noteq> Inl OutOfFuel"
      using scanstring_error by fastforce
    from o ns obtain key cs2 where k: "scanstring (tl cs) = Inr (key, cs2)"
      and o2: "scan_once n (skip_ws (tl (skip_ws cs2))) = Inl OutOfFuel \<or>
          (\<exists>val cs4. scan_once n (skip_ws (tl (skip_ws cs2))) = Inr (val, cs4) \<and>
             parse_object n (dict_set acc key val) (skip_ws (tl (skip_ws cs4))) = Inl OutOfFuel)"
      by (auto simp: Let_def split: if_splits sum.splits)
    have a: "length cs2 < length (tl cs)" using k by (rule scanstring_shorter)
    have x: "length (skip_ws (tl (skip_ws cs2))) \<le> length cs2"
      using length_skip_ws [of "tl (skip_ws cs2)"] length_skip_ws [of cs2] by simp
    from a x f have fx: "2 * length (skip_ws (tl (skip_ws cs2))) < n" by simp
    from o2 show False
    proof
      assume "scan_once n (skip_ws (tl (skip_ws cs2))) = Inl OutOfFuel"
      with so [OF fx] show False by simp
    next
      assume "\<exists>val cs4. scan_once n (skip_ws (tl (skip_ws cs2))) = Inr (val, cs4) \<and>
             parse_object n (dict_set acc key val) (skip_ws (tl (skip_ws cs4))) = Inl OutOfFuel"
      then obtain val cs4 where v: "scan_once n (skip_ws (tl (skip_ws cs2))) = Inr (val, cs4)"
        and p: "parse_object n (dict_set acc key val) (skip_ws (tl (skip_ws cs4))) = Inl OutOfFuel"
        by blast
      have "length cs4 < length (skip_ws (tl (skip_ws cs2)))" using v by (rule sh)
      moreover have "length (skip_ws (tl (skip_ws cs4))) \<le> length cs4"
        using length_skip_ws [of "tl (skip_ws cs4)"] length_skip_ws [of cs4] by simp
      ultimately have "2 * length (skip_ws (tl (skip_ws cs4))) < n" using fx by simp
      from po [OF this] p show False by simp
    qed
  qed
  have 3: "parse_array (Suc n) acc cs \<noteq> Inl OutOfFuel" if f: "2 * length cs + 1 < Suc n"
    for acc cs
  proof
    assume o: "parse_array (Suc n) acc cs = Inl OutOfFuel"
    from f have fx: "2 * length cs < n" by simp
    from o so [OF fx] obtain val cs1 where v: "scan_once n cs = Inr (val, cs1)"
      and p: "parse_array n (acc @ [val]) (skip_ws (tl (skip_ws cs1))) = Inl OutOfFuel"
      by (auto simp: Let_def split: if_splits sum.splits)
    have "length cs1 < length cs" using v by (rule sh)
    moreover have "length (skip_ws (tl (skip_ws cs1))) \<le> length cs1"
      using length_skip_ws [of "tl (skip_ws cs1)"] length_skip_ws [of cs1] by simp
    ultimately have "2 * length (skip_ws (tl (skip_ws cs1))) + 1 < n" using fx by simp
    from pa [OF this] p show False by simp
  qed
  from 1 2 3 show ?case by blast
qed

lemma json_loads_fuel: "json_loads s \<noteq> Inl OutOfFuel"
proof -
  have "2 * length (skip_ws s) < Suc (2 * length s)"
    using length_skip_ws [of s] by simp
  then have "scan_once (Suc (2 * length s)) (skip_ws s) \<noteq> Inl OutOfFuel"
    using parser_fuel [of "Suc (2 * length s)"] by blast
  then show ?thesis
    by (auto simp: json_loads_def split: sum.splits if_splits)
qed

lemma parser_error:
  "(\<forall>cs e. scan_once n cs = Inl e \<longrightarrow> e = JSONDecodeError \<or> e = ValueError \<or> e = OutOfFuel) \<and>
   (\<forall>acc cs e. parse_object n acc cs = Inl e \<longrightarrow> e = JSONDecodeError \<or> e = ValueError \<or> e = OutOfFuel) \<and>
   (\<forall>acc cs e. parse_array n acc cs = Inl e \<longrightarrow> e = JSONDecodeError \<or> e = ValueError \<or> e = OutOfFuel)"
proof (induction n)
  case 0
  show ?case by simp
next
  case (Suc n)
  then have so: "scan_once n cs = Inl e \<Longrightarrow> e = JSONDecodeError \<or> e = ValueError \<or> e = OutOfFuel"
    and po: "parse_object n acc cs = Inl e \<Longrightarrow> e = JSONDecodeError \<or> e = ValueError \<or> e = OutOfFuel"
    and pa: "parse_array n acc' cs = Inl e \<Longrightarrow> e = JSONDecodeError \<or> e = ValueError \<or> e = OutOfFuel"
    for cs acc acc' e by blast+
  have 1: "e = JSONDecodeError \<or> e = ValueError \<or> e = OutOfFuel"
    if "scan_once (Suc n) cs = Inl e" for cs e
  proof (cases cs)
    case Nil
    with that show ?thesis by simp
  next
    case (Cons c cs')
    with that have "scanstring cs' = Inl e \<or> parse_object n [] (skip_ws cs') = Inl e
        \<or> parse_array n [] (skip_ws cs') = Inl e \<or> match_number (c # cs') = Inl e"
      by (auto simp: Let_def split: sum.splits if_splits)
    then show ?thesis
      using scanstring_error po pa match_number_error by blast
  qed
  have 2: "e = JSONDecodeError \<or> e = ValueError \<or> e = OutOfFuel"
    if "parse_object (Suc n) acc cs = Inl e" for acc cs e
  proof -
    from that have "e = JSONDecodeError \<or> scanstring (tl cs) = Inl e
        \<or> (\<exists>x. scan_once n x = Inl e) \<or> (\<exists>a x. parse_object n a x = Inl e)"
      by (auto simp: Let_def split: sum.splits if_splits)
    then show ?thesis
      using scanstring_error so po by blast
  qed
  have 3: "e = JSONDecodeError \<or> e = ValueError \<or> e = OutOfFuel"
    if "parse_array (Suc n) acc cs = Inl e" for acc cs e
  proof -
    from that have "e = JSONDecodeError
        \<or> (\<exists>x. scan_once n x = Inl e) \<or> (\<exists>a x. parse_array n a x = Inl e)"
      by (auto simp: Let_def split: sum.splits if_splits)
    then show ?thesis
      using so pa by blast
  qed
  from 1 2 3 show ?case by blast
qed

lemma json_loads_error: "json_loads s = Inl e \<Longrightarrow> e = JSONDecodeError \<or> e = ValueError"
proof -
  assume a: "json_loads s = Inl e"
  then have "e = JSONDecodeError \<or> (\<exists>n x. scan_once n x = Inl e)"
    by (auto simp: json_loads_def split: sum.splits if_splits)
  then have "e = JSONDecodeError \<or> e = ValueError \<or> e = OutOfFuel"
    using parser_error by blast
  with a json_loads_fuel [of s] show ?thesis by auto
qed

lemma parser_object:
  "parse_object n acc cs = Inr (v, rest) \<Longrightarrow> \<exists>d. v = JObject d"
proof (induction n arbitrary: acc cs)
  case 0
  then show ?case by simp
next
  case (Suc n)
  from Suc.prems have "(\<exists>d. v = JObject d) \<or> (\<exists>a x. parse_object n a x = Inr (v, rest))"
    by (auto simp: Let_def split: sum.splits if_splits)
  then show ?case using Suc.IH by blast
qed

lemma scan_once_brace:
  assumes "scan_once n (123 # cs) = Inr (v, rest)"
  shows "\<exists>d. v = JObject d"
proof (cases n)
  case 0
  with assms show ?thesis by simp
next
  case (Suc n')
  with assms have "v = JObject [] \<or> parse_object n' [] (skip_ws cs) = Inr (v, rest)"
    by (auto simp: Let_def simp del: parse_object.simps split: if_splits)
  then show ?thesis using parser_object by blast
qed

lemma json_loads_brace:
  assumes "json_loads (123 # cs) = Inr v"
  shows "\<exists>d. v = JObject d"
proof -
  have "skip_ws (123 # cs) = 123 # cs" by (simp add: skip_ws_def is_ws_def)
  with assms obtain n rest where "scan_once n (123 # cs) = Inr (v, rest)"
    by (auto simp: json_loads_def simp del: scan_once.simps split: sum.splits if_splits)
  then show ?thesis by (rule scan_once_brace)
qed

lemma re_search_brace: "re_search s = Some m \<Longrightarrow> \<exists>m'. m = 123 # m'"
  using re_search_Some by blast

lemma parse_response_error: "parse_response (JStr s) = Inl e \<Longrightarrow> e = ValueError"
proof -
  assume a: "parse_response (JStr s) = Inl e"
  then obtain m where m: "re_search s = Some m"
    by (auto simp: parse_response_def split: option.splits)
  then obtain m' where m': "m = 123 # m'" using re_search_brace by blast
  show ?thesis
  proof (cases "json_loads m")
    case (Inl e')
    with json_loads_error have "e' = JSONDecodeError \<or> e' = ValueError" by blast
    with a m Inl show ?thesis by (auto simp: parse_response_def)
  next
    case (Inr v)
    with m' json_loads_brace obtain d where "v = JObject d" by blast
    with a m Inr show ?thesis by (simp add: parse_response_def)
  qed
qed

lemma no_close_iff: "(\<forall>i j. \<not> closes s i j) \<longleftrightarrow> re_search s = None"
  by (simp add: re_search_None start_ok_iff)

subsection \<open>Lemmas for the claims\<close>

lemma re_search_embedded:
  assumes "123 \<notin> set pre" and "10 \<notin> set mid" and "125 \<notin> set (takeWhile (\<lambda>c. c \<noteq> 10) post)"
  shows "re_search (pre @ 123 # mid @ 125 # post) = Some (123 # mid @ [125])"
  using assms(1)
proof (induction pre)
  case Nil
  have "takeWhile (\<lambda>c. c \<noteq> 10) (mid @ 125 # post) = mid @ takeWhile (\<lambda>c. c \<noteq> 10) (125 # post)"
    using assms(2) by (intro takeWhile_append2) auto
  then have line: "takeWhile (\<lambda>c. c \<noteq> 10) (mid @ 125 # post)
      = mid @ 125 # takeWhile (\<lambda>c. c \<noteq> 10) post" by simp
  have "dropWhile (\<lambda>c. c \<noteq> 125) (rev (takeWhile (\<lambda>c. c \<noteq> 10) post) @ 125 # rev mid)
      = dropWhile (\<lambda>c. c \<noteq> 125) (125 # rev mid)"
    using assms(3) by (intro dropWhile_append2) auto
  then have "dot_star_brace (mid @ 125 # post) = Some (mid @ [125])"
    by (simp add: dot_star_brace_def line)
  then show ?case by simp
next
  case (Cons c pre)
  then show ?case by simp
qed

lemma parse_response_embedded:
  assumes "123 \<notin> set pre" and "10 \<notin> set mid" and "125 \<notin> set (takeWhile (\<lambda>c. c \<noteq> 10) post)"
  shows "parse_response (JStr (pre @ 123 # mid @ 125 # post)) = parse_response (JStr (123 # mid @ [125]))"
proof -
  have "re_search (pre @ 123 # mid @ 125 # post) = Some (123 # mid @ [125])"
    using assms by (rule re_search_embedded)
  moreover have "re_search ([] @ 123 # mid @ 125 # []) = Some (123 # mid @ [125])"
    using assms(2) by (intro re_search_embedded) simp_all
  ultimately show ?thesis by (simp add: parse_response_def)
qed

lemma parse_response_contains:
  assumes "obj = 123 # mid @ [125]" and "10 \<notin> set mid" and "plain_text pre post"
  shows "parse_response (JStr (pre @ obj @ post)) = parse_response (JStr obj)"
proof -
  have "pre @ obj @ post = pre @ 123 # mid @ 125 # post"
    unfolding assms(1) by simp
  moreover have "parse_response (JStr (pre @ 123 # mid @ 125 # post))
      = parse_response (JStr (123 # mid @ [125]))"
    using assms(2,3) by (intro parse_response_embedded) (simp_all add: plain_text_def)
  ultimately show ?thesis unfolding assms(1) by simp
qed

lemma any_nonzero_True:
  "any_nonzero vs = Inr True \<Longrightarrow> \<exists>v \<in> set vs. \<exists>i. py_int v = Some i \<and> i \<noteq> 0"
  by (induction vs) (auto split: option.splits if_splits)

lemma any_nonzero_False:
  "any_nonzero vs = Inr False \<Longrightarrow> \<forall>v \<in> set vs. py_int v = Some 0"
  by (induction vs) (auto split: option.splits if_splits)

lemma any_nonzero_zeros:
  "\<forall>v \<in> set pre. py_int v = Some 0 \<Longrightarrow> any_nonzero (pre @ vs) = any_nonzero vs"
  by (induction pre) auto

lemma decision_True_iff:
  assumes "decision sample = Inr b"
  shows "b \<longleftrightarrow> (\<exists>r fm. get_response sample = Inr r \<and> parse_response r = Inr (Some fm)
                  \<and> (\<exists>v \<in> snd ` set fm. \<exists>i. py_int v = Some i \<and> i \<noteq> 0))"
proof -
  from assms obtain r response where r: "get_response sample = Inr r"
    and p: "parse_response r = Inr response" and k: "keep response = Inr b"
    by (auto simp: decision_def split: sum.splits)
  show ?thesis
  proof (cases response)
    case None
    with k r p show ?thesis by (auto simp: keep_def)
  next
    case (Some fm)
    show ?thesis
    proof (cases b)
      case True
      with k Some have "any_nonzero (map snd fm) = Inr True"
        by (auto simp: keep_def split: if_splits)
      from any_nonzero_True [OF this] r p Some True show ?thesis by auto
    next
      case False
      with k Some have "fm = [] \<or> any_nonzero (map snd fm) = Inr False"
        by (auto simp: keep_def split: if_splits)
      then have "\<forall>v \<in> snd ` set fm. py_int v = Some 0"
        using any_nonzero_False by fastforce
      with r p Some False show ?thesis by auto
    qed
  qed
qed

lemma example_removed:
  \<open>parse_response (JStr (lit ''{"a": 0, "b": "0", "c": null}''))
     = Inr (Some [(lit ''a'', Plain (lit ''0'')), (lit ''b'', Plain (lit ''0'')), (lit ''c'', Plain (lit ''0''))])\<close>
  by (simp add: filter_eval json_eval)

lemma example_retained:
  \<open>parse_response (JStr (lit ''{"a": 1, "b": 0}''))
     = Inr (Some [(lit ''a'', Plain (lit ''1'')), (lit ''b'', Plain (lit ''0''))])\<close>
  by (simp add: filter_eval json_eval)

lemma dict_set_keys:
  "map fst (dict_set d k v) = (if k \<in> fst ` set d then map fst d else map fst d @ [k])"
  by (auto simp: dict_set_def split: prod.splits)

lemma parser_object_distinct:
  "parse_object n acc cs = Inr (v, rest) \<Longrightarrow> distinct (map fst acc)
     \<Longrightarrow> \<exists>d. v = JObject d \<and> distinct (map fst d)"
proof (induction n arbitrary: acc cs)
  case 0
  then show ?case by simp
next
  case (Suc n)
  from Suc.prems(1) have "\<exists>key val.
    v = JObject (dict_set acc key val) \<or> (\<exists>x. parse_object n (dict_set acc key val) x = Inr (v, rest))"
    by (auto simp: Let_def split: sum.splits if_splits) blast+
  then obtain key val where
    "v = JObject (dict_set acc key val) \<or> (\<exists>x. parse_object n (dict_set acc key val) x = Inr (v, rest))"
    by blast
  moreover have "distinct (map fst (dict_set acc key val))"
    using Suc.prems(2) by (auto simp: dict_set_keys)
  ultimately show ?case using Suc.IH by blast
qed

lemma json_loads_object:
  assumes "json_loads (123 # cs) = Inr v"
  shows "\<exists>d. v = JObject d \<and> distinct (map fst d)"
proof -
  have "skip_ws (123 # cs) = 123 # cs" by (simp add: skip_ws_def is_ws_def)
  with assms obtain n rest where "scan_once n (123 # cs) = Inr (v, rest)"
    by (auto simp: json_loads_def simp del: scan_once.simps split: sum.splits if_splits)
  then obtain n' where "v = JObject [] \<or> parse_object n' [] (skip_ws cs) = Inr (v, rest)"
    by (cases n) (auto simp: Let_def simp del: parse_object.simps split: if_splits)
  then show ?thesis using parser_object_distinct [of n' "[]"] by auto
qed

lemma match_number_long:
  assumes "int_max_str_digits < d"
  shows "match_number (replicate d 49 @ 44 # rest) = Inl ValueError"
proof -
  from assms obtain d' where d: "d = Suc d'" by (cases d) auto
  have tw: "takeWhile is_digit (replicate d' 49 @ 44 # rest) = replicate d' 49"
  proof -
    have "takeWhile is_digit (replicate d' 49 @ 44 # rest)
        = replicate d' 49 @ takeWhile is_digit (44 # rest)"
      by (intro takeWhile_append2) (simp add: is_digit_def)
    then show ?thesis by (simp add: is_digit_def)
  qed
  have sg: "\<not> startswith (replicate d 49 @ 44 # rest) [45]"
    by (simp add: d startswith_def)
  have ip: "int_part (replicate d 49 @ 44 # rest) = replicate d 49"
    by (simp add: d int_part_def is_digit_def tw)
  have fr: "fraction (44 # rest) = []"
    by (cases rest) (simp_all add: fraction_def)
  have ex: "exponent (44 # rest) = []"
    by (simp add: exponent_def)
  show ?thesis
    using assms by (simp add: match_number_def sg ip fr ex)
qed

lemma scan_long_int:
  assumes "int_max_str_digits < d"
  shows \<open>scan_once (Suc (Suc (Suc k))) (lit ''{"n": '' @ replicate d 49 @ lit '',}'') = Inl ValueError\<close>
proof -
  from assms obtain d' where d: "d = Suc d'" by (cases d) auto
  have mn: "match_number (49 # replicate d' 49 @ [44, 125]) = Inl ValueError"
    using match_number_long [OF assms, of "[125]"] by (simp add: d)
  have inner: "scan_once (Suc k) (49 # replicate d' 49 @ [44, 125]) = Inl ValueError"
    by (simp add: startswith_def lit_def mn)
  have obj: "parse_object (Suc (Suc k)) [] (34 # 110 # 34 # 58 # 32 # 49 # replicate d' 49 @ [44, 125])
      = Inl ValueError"
    by (simp add: startswith_def skip_ws_def is_ws_def cons_char_def inner del: scan_once.simps)
  have "scan_once (Suc (Suc (Suc k)))
      (123 # 34 # 110 # 34 # 58 # 32 # 49 # replicate d' 49 @ [44, 125]) = Inl ValueError"
    by (simp add: startswith_def skip_ws_def is_ws_def obj del: parse_object.simps)
  then show ?thesis
    by (simp add: d lit_def del: scan_once.simps)
qed

lemma load_loop_step:
  "load_loop (entry # rest) data =
     (if json_named entry then
        (case snd entry of
           Inl e \<Rightarrow> Inl e
         | Inr text \<Rightarrow>
             (case json_loads text of
                Inl e \<Rightarrow> Inl e
              | Inr x \<Rightarrow> (case extend data x of Inl e \<Rightarrow> Inl e | Inr data' \<Rightarrow> load_loop rest data')))
      else load_loop rest data)"
  by (cases entry) (simp add: json_named_def)

lemma load_loop_skip: "load_loop (filter json_named dir) data = load_loop dir data"
proof (induction dir arbitrary: data)
  case Nil
  show ?case by simp
next
  case (Cons entry dir)
  show ?case
    by (simp add: load_loop_step Cons.IH del: load_loop.simps
          split: sum.splits)
qed

lemma load_loop_arrays:
  assumes "\<forall>entry \<in> set dir. json_named entry \<longrightarrow> samples_in entry \<noteq> None"
  shows "load_loop dir data
           = Inr (data @ concat (map (\<lambda>entry. case samples_in entry of Some xs \<Rightarrow> xs | None \<Rightarrow> [])
                                      (filter json_named dir)))"
  using assms
proof (induction dir arbitrary: data)
  case Nil
  show ?case by simp
next
  case (Cons entry dir)
  show ?case
  proof (cases "json_named entry")
    case False
    with Cons show ?thesis by (simp add: load_loop_step del: load_loop.simps)
  next
    case True
    with Cons.prems obtain xs where xs: "samples_in entry = Some xs" by auto
    then obtain body where "snd entry = Inr body" "json_loads body = Inr (JArray xs)"
      by (auto simp: samples_in_def split: sum.splits json.splits)
    with True xs Cons show ?thesis
      by (simp add: load_loop_step extend_def del: load_loop.simps)
  qed
qed

lemma load_loop_first_error:
  assumes "dir = pre @ entry # post"
    and "\<forall>x \<in> set pre. json_named x \<longrightarrow> samples_in x \<noteq> None"
    and "json_named entry" and "snd entry = Inr body" and "json_loads body = Inl e"
  shows "load_loop dir data = Inl e"
  using assms(1,2)
proof (induction pre arbitrary: dir data)
  case Nil
  with assms(3,4,5) show ?case by (simp add: load_loop_step del: load_loop.simps)
next
  case (Cons x pre)
  have rest: "load_loop (pre @ entry # post) d = Inl e" for d
    using Cons.IH [of "pre @ entry # post" d] Cons.prems(2) by simp
  show ?case
  proof (cases "json_named x")
    case False
    with Cons.prems(1) rest show ?thesis by (simp add: load_loop_step del: load_loop.simps)
  next
    case True
    with Cons.prems(2) obtain xs where xs: "samples_in x = Some xs" by auto
    then obtain t where "snd x = Inr t" "json_loads t = Inr (JArray xs)"
      by (auto simp: samples_in_def split: sum.splits json.splits)
    with True Cons.prems(1) rest show ?thesis
      by (simp add: load_loop_step extend_def del: load_loop.simps)
  qed
qed

lemma load_loop_raises:
  assumes "entry \<in> set dir" and "malformed entry"
  shows "\<exists>e. load_loop dir data = Inl e"
  using assms(1)
proof (induction dir arbitrary: data)
  case Nil
  then show ?case by simp
next
  case (Cons x dir)
  show ?case
  proof (cases "x = entry")
    case True
    with assms(2) show ?thesis
      by (auto simp: malformed_def load_loop_step isl_def simp del: load_loop.simps
               split: sum.splits)
  next
    case False
    with Cons.prems have "entry \<in> set dir" by simp
    then have "\<exists>e. load_loop dir d = Inl e" for d by (rule Cons.IH)
    then show ?thesis
      by (auto simp: load_loop_step simp del: load_loop.simps split: sum.splits)
  qed
qed

lemma endswith_eval:
  "endswith (lit ''aapl.json'') (lit ''.json'')" "endswith (lit ''msft.json'') (lit ''.json'')"
  "endswith (lit ''tsla.json'') (lit ''.json'')" "\<not> endswith (lit ''notes.txt'') (lit ''.json'')"
  by (simp_all add: endswith_def lit_def)

lemma loads_eval:
  \<open>json_loads (lit ''[{"response": "x"}]'') = Inr (JArray [JObject [(lit ''response'', JStr (lit ''x''))]])\<close>
  \<open>json_loads (lit ''[{"response": "y"}, {"response": "z"}]'')
     = Inr (JArray [JObject [(lit ''response'', JStr (lit ''y''))], JObject [(lit ''response'', JStr (lit ''z''))]])\<close>
  \<open>json_loads (lit ''[{"response": '') = Inl JSONDecodeError\<close>
  \<open>json_loads (lit ''[]'') = Inr (JArray [])\<close>
  by (simp_all add: json_eval)

lemma merged_data_all: "merged_data dir = load_json_files dir"
  by (simp add: merged_data_def split: sum.splits)

section \<open>The claims\<close>

text \<open>
  C1. The specification has the output file hold the retained partition of the filter,
  and so does the notebook's own text (\<^verbatim>\<open>Filtering out invalid or zero-value samples\<close>,
  \<^verbatim>\<open># Save filtered samples to a new JSON file\<close>, \<^verbatim>\<open>Filtered samples saved to ...\<close>), but
  no cell calls \<open>filter_samples\<close> and the save cell dumps \<^verbatim>\<open>all_samples\<close>. On a directory
  with one file holding one sample whose response has no braces, the file written holds
  that sample, while the filter retains nothing and removes it.
\<close>

theorem merged_data_unfiltered:
  \<open>merged_data [(lit ''aapl.json'', Inr (lit ''[{"response": "no features"}]''))]
      = Inr [JObject [(lit ''response'', JStr (lit ''no features''))]]
   \<and> filter_samples [JObject [(lit ''response'', JStr (lit ''no features''))]]
      = Inr ([], [JObject [(lit ''response'', JStr (lit ''no features''))]])
   \<and> parse_response (JStr (lit ''no features'')) = Inr None\<close>
proof -
  have j: \<open>json_loads (lit ''[{"response": "no features"}]'')
      = Inr (JArray [JObject [(lit ''response'', JStr (lit ''no features''))]])\<close>
    by (simp add: json_eval)
  have e: \<open>endswith (lit ''aapl.json'') (lit ''.json'')\<close>
    by (simp add: endswith_def lit_def)
  have m: \<open>merged_data [(lit ''aapl.json'', Inr (lit ''[{"response": "no features"}]''))]
      = Inr [JObject [(lit ''response'', JStr (lit ''no features''))]]\<close>
    by (simp add: merged_data_def load_json_files_def e j extend_def)
  have p: \<open>parse_response (JStr (lit ''no features'')) = Inr None\<close>
    by (simp add: parse_response_def lit_def)
  have g: \<open>get_response (JObject [(lit ''response'', JStr (lit ''no features''))])
      = Inr (JStr (lit ''no features''))\<close>
    by (simp add: get_response_def lit_def)
  have f: \<open>filter_samples [JObject [(lit ''response'', JStr (lit ''no features''))]]
      = Inr ([], [JObject [(lit ''response'', JStr (lit ''no features''))]])\<close>
    by (simp add: filter_samples_single decision_def g p keep_def)
  from m f p show ?thesis by blast
qed

text \<open>
  C2. Whenever \<open>filter_samples\<close> returns, the two lists it returns partition the input: as
  multisets they add up to the input, no sample is in both, and each is a subsequence of
  the input, so the input's relative order is kept.
\<close>

theorem filter_samples_partition:
  assumes "filter_samples data = Inr (retained, removed)"
  shows "mset retained + mset removed = mset data \<and> set retained \<inter> set removed = {}
         \<and> subseq retained data \<and> subseq removed data"
proof -
  let ?P = "\<lambda>s. decision s = Inr True"
  from assms have all: "\<forall>s \<in> set data. \<exists>b. decision s = Inr b"
    and k: "retained = filter ?P data"
    and r: "removed = filter (\<lambda>s. decision s = Inr False) data"
    by (simp_all add: filter_samples_def filter_loop_Inr)
  from all have "filter (\<lambda>s. decision s = Inr False) data = filter (\<lambda>s. \<not> ?P s) data"
    by (intro filter_cong) auto
  with r have r': "removed = filter (\<lambda>s. \<not> ?P s) data" by simp
  have "mset retained + mset removed = mset data"
    unfolding k r' by (induction data) simp_all
  moreover have "set retained \<inter> set removed = {}"
    unfolding k r' by auto
  moreover have "subseq retained data" "subseq removed data"
    unfolding k r' by simp_all
  ultimately show ?thesis by simp
qed

theorem filter_samples_partition_witness:
  \<open>filter_samples [sample_of (lit ''none''), sample_of (lit ''[Features]: {"a": 1, "b": 0}''), sample_of (lit ''{"a": 0}'')]
     = Inr ([sample_of (lit ''[Features]: {"a": 1, "b": 0}'')], [sample_of (lit ''none''), sample_of (lit ''{"a": 0}'')])
   \<and> mset [sample_of (lit ''[Features]: {"a": 1, "b": 0}'')] + mset [sample_of (lit ''none''), sample_of (lit ''{"a": 0}'')]
       = mset [sample_of (lit ''none''), sample_of (lit ''[Features]: {"a": 1, "b": 0}''), sample_of (lit ''{"a": 0}'')]
   \<and> set [sample_of (lit ''[Features]: {"a": 1, "b": 0}'')] \<inter> set [sample_of (lit ''none''), sample_of (lit ''{"a": 0}'')] = {}
   \<and> subseq [sample_of (lit ''[Features]: {"a": 1, "b": 0}'')] [sample_of (lit ''none''), sample_of (lit ''[Features]: {"a": 1, "b": 0}''), sample_of (lit ''{"a": 0}'')]
   \<and> subseq [sample_of (lit ''none''), sample_of (lit ''{"a": 0}'')] [sample_of (lit ''none''), sample_of (lit ''[Features]: {"a": 1, "b": 0}''), sample_of (lit ''{"a": 0}'')]\<close>
proof -
  have h: \<open>filter_samples [sample_of (lit ''none''), sample_of (lit ''[Features]: {"a": 1, "b": 0}''), sample_of (lit ''{"a": 0}'')]
     = Inr ([sample_of (lit ''[Features]: {"a": 1, "b": 0}'')], [sample_of (lit ''none''), sample_of (lit ''{"a": 0}'')])\<close>
    by (simp add: sample_of_def filter_eval json_eval)
  from filter_samples_partition [OF h] h show ?thesis by blast
qed

text \<open>
  C3, as amended. When the pattern finds no match, or when \<^verbatim>\<open>json.loads\<close> rejects the match
  with \<^verbatim>\<open>JSONDecodeError\<close>, \<open>parse_response\<close> returns \<^verbatim>\<open>None\<close> and the sample goes to the
  removed list (alone, and in every run of the filter that returns). The statement
  for every match that is not valid JSON fails: \<^verbatim>\<open>except json.JSONDecodeError\<close> catches
  that exception only, and an integer literal of more than 4300 digits makes \<^verbatim>\<open>json.loads\<close>
  raise a plain \<^verbatim>\<open>ValueError\<close> as soon as the scanner reaches it, also in a text that is
  not valid JSON further on (here: a trailing comma). The counterexample is such a text.
\<close>

theorem extraction_failure_recovered:
  assumes "re_search s = None \<or> (\<exists>m. re_search s = Some m \<and> json_loads m = Inl JSONDecodeError)"
  shows "parse_response (JStr s) = Inr None
         \<and> (\<forall>sample. get_response sample = Inr (JStr s) \<longrightarrow>
               filter_samples [sample] = Inr ([], [sample])
               \<and> (\<forall>data retained removed.
                     sample \<in> set data \<and> filter_samples data = Inr (retained, removed)
                     \<longrightarrow> sample \<in> set removed \<and> sample \<notin> set retained))"
proof -
  from assms have p: "parse_response (JStr s) = Inr None"
    by (auto simp: parse_response_def)
  have "decision sample = Inr False" if "get_response sample = Inr (JStr s)" for sample
    using that p by (simp add: decision_def keep_def)
  then show ?thesis
    using p by (auto simp: filter_samples_single dest: decision_False_removed)
qed

theorem extraction_failure_recovered_witness:
  \<open>re_search (lit ''{"a": "not-json"'') = None
   \<and> parse_response (JStr (lit ''{"a": "not-json"'')) = Inr None
   \<and> filter_samples [sample_of (lit ''{"a": "not-json"'')] = Inr ([], [sample_of (lit ''{"a": "not-json"'')])
   \<and> re_search (lit ''Features {"a": 1,} end'') = Some (lit ''{"a": 1,}'')
   \<and> json_loads (lit ''{"a": 1,}'') = Inl JSONDecodeError
   \<and> parse_response (JStr (lit ''Features {"a": 1,} end'')) = Inr None
   \<and> filter_samples [sample_of (lit ''Features {"a": 1,} end'')] = Inr ([], [sample_of (lit ''Features {"a": 1,} end'')])\<close>
proof -
  have r1: \<open>re_search (lit ''{"a": "not-json"'') = None\<close>
    by (simp add: lit_def dot_star_brace_def)
  have r2: \<open>re_search (lit ''Features {"a": 1,} end'') = Some (lit ''{"a": 1,}'')\<close>
    by (simp add: lit_def dot_star_brace_def)
  have j2: \<open>json_loads (lit ''{"a": 1,}'') = Inl JSONDecodeError\<close>
    by (simp add: json_eval)
  have g1: \<open>get_response (sample_of (lit ''{"a": "not-json"'')) = Inr (JStr (lit ''{"a": "not-json"''))\<close>
    and g2: \<open>get_response (sample_of (lit ''Features {"a": 1,} end'')) = Inr (JStr (lit ''Features {"a": 1,} end''))\<close>
    by (simp_all add: get_response_def sample_of_def lit_def)
  have h1: \<open>re_search (lit ''{"a": "not-json"'') = None
      \<or> (\<exists>m. re_search (lit ''{"a": "not-json"'') = Some m \<and> json_loads m = Inl JSONDecodeError)\<close>
    using r1 by blast
  have h2: \<open>re_search (lit ''Features {"a": 1,} end'') = None
      \<or> (\<exists>m. re_search (lit ''Features {"a": 1,} end'') = Some m \<and> json_loads m = Inl JSONDecodeError)\<close>
    using r2 j2 by blast
  from extraction_failure_recovered [OF h1] extraction_failure_recovered [OF h2] r1 r2 j2 g1 g2
  show ?thesis by blast
qed

theorem extraction_failure_counterexample:
  \<open>re_search (lit ''{"n": '' @ long_digits @ lit '',}'') = Some (lit ''{"n": '' @ long_digits @ lit '',}'')
   \<and> json_loads (lit ''{"n": '' @ long_digits @ lit '',}'') = Inl ValueError
   \<and> parse_response (JStr (lit ''{"n": '' @ long_digits @ lit '',}'')) = Inl ValueError\<close>
proof -
  have len: \<open>Suc (2 * length (lit ''{"n": '' @ long_digits @ lit '',}'')) = Suc (Suc (Suc 8616))\<close>
    by (simp add: lit_def long_digits_def)
  have sk: \<open>skip_ws (lit ''{"n": '' @ long_digits @ lit '',}'') = lit ''{"n": '' @ long_digits @ lit '',}''\<close>
    by (simp add: lit_def skip_ws_def is_ws_def)
  have bom: \<open>\<not> startswith (lit ''{"n": '' @ long_digits @ lit '',}'') [0xFEFF]\<close>
    by (simp add: lit_def startswith_def)
  have "int_max_str_digits < 4301" by (simp add: int_max_str_digits_def)
  then have sc: \<open>scan_once (Suc (Suc (Suc 8616))) (lit ''{"n": '' @ long_digits @ lit '',}'') = Inl ValueError\<close>
    unfolding long_digits_def by (rule scan_long_int)
  have j: \<open>json_loads (lit ''{"n": '' @ long_digits @ lit '',}'') = Inl ValueError\<close>
    unfolding json_loads_def by (simp only: len sk bom sc if_False sum.case)
  have e: \<open>lit ''{"n": '' @ long_digits @ lit '',}'' = [] @ 123 # (lit ''"n": '' @ long_digits @ [44]) @ 125 # []\<close>
    by (simp add: lit_def)
  have \<open>re_search ([] @ 123 # (lit ''"n": '' @ long_digits @ [44]) @ 125 # [])
      = Some (123 # (lit ''"n": '' @ long_digits @ [44]) @ [125])\<close>
    by (rule re_search_embedded) (simp_all add: lit_def long_digits_def)
  then have r: \<open>re_search (lit ''{"n": '' @ long_digits @ lit '',}'') = Some (lit ''{"n": '' @ long_digits @ lit '',}'')\<close>
    by (simp add: lit_def)
  from r j show ?thesis by (simp add: parse_response_def)
qed

text \<open>
  C4. When the match parses, the parsed value is a dict \<open>d\<close> with distinct keys (a text
  that opens with a brace cannot parse to anything else), and \<open>parse_response\<close> returns a
  map with the same keys in the same order, the value at each key being \<^verbatim>\<open>str\<close> of the
  original value, and the string \<^verbatim>\<open>0\<close> where the original value is \<^verbatim>\<open>null\<close>.
\<close>

theorem feature_map_normalization:
  assumes "re_search s = Some m" and "json_loads m = Inr v"
  shows "\<exists>d fm. v = JObject d \<and> distinct (map fst d)
           \<and> parse_response (JStr s) = Inr (Some fm)
           \<and> map fst fm = map fst d
           \<and> (\<forall>i < length d. snd (fm ! i) =
                 (if snd (d ! i) = JNull then Plain (lit ''0'') else py_str (snd (d ! i))))"
proof -
  from assms(1) obtain m' where "m = 123 # m'" using re_search_brace by blast
  with assms(2) obtain d where d: "v = JObject d" "distinct (map fst d)"
    using json_loads_object by blast
  define fm where "fm = map (\<lambda>(k, v). (k, stringify v)) d"
  have p: "parse_response (JStr s) = Inr (Some fm)"
    using assms d by (simp add: parse_response_def fm_def)
  have k: "map fst fm = map fst d"
    by (simp add: fm_def case_prod_unfold comp_def)
  have "snd (fm ! i) = (if snd (d ! i) = JNull then Plain (lit ''0'') else py_str (snd (d ! i)))"
    if "i < length d" for i
    using that by (simp add: fm_def stringify_def case_prod_unfold)
  with d p k show ?thesis by blast
qed

theorem feature_map_normalization_witness:
  \<open>re_search (lit ''So: {"up": 2, "note": "n/a", "risk": null, "ok": true}'')
      = Some (lit ''{"up": 2, "note": "n/a", "risk": null, "ok": true}'')
   \<and> json_loads (lit ''{"up": 2, "note": "n/a", "risk": null, "ok": true}'')
      = Inr (JObject [(lit ''up'', JInt 2), (lit ''note'', JStr (lit ''n/a'')), (lit ''risk'', JNull),
                      (lit ''ok'', JBool True)])
   \<and> (\<exists>d fm. JObject [(lit ''up'', JInt 2), (lit ''note'', JStr (lit ''n/a'')), (lit ''risk'', JNull),
                      (lit ''ok'', JBool True)] = JObject d \<and> distinct (map fst d)
           \<and> parse_response (JStr (lit ''So: {"up": 2, "note": "n/a", "risk": null, "ok": true}'')) = Inr (Some fm)
           \<and> map fst fm = map fst d
           \<and> (\<forall>i < length d. snd (fm ! i) =
                 (if snd (d ! i) = JNull then Plain (lit ''0'') else py_str (snd (d ! i)))))
   \<and> parse_response (JStr (lit ''So: {"up": 2, "note": "n/a", "risk": null, "ok": true}''))
      = Inr (Some [(lit ''up'', Plain (lit ''2'')), (lit ''note'', Plain (lit ''n/a'')),
                   (lit ''risk'', Plain (lit ''0'')), (lit ''ok'', Plain (lit ''True''))])\<close>
proof -
  have r: \<open>re_search (lit ''So: {"up": 2, "note": "n/a", "risk": null, "ok": true}'')
      = Some (lit ''{"up": 2, "note": "n/a", "risk": null, "ok": true}'')\<close>
    by (simp add: lit_def dot_star_brace_def)
  have j: \<open>json_loads (lit ''{"up": 2, "note": "n/a", "risk": null, "ok": true}'')
      = Inr (JObject [(lit ''up'', JInt 2), (lit ''note'', JStr (lit ''n/a'')), (lit ''risk'', JNull),
                      (lit ''ok'', JBool True)])\<close>
    by (simp add: json_eval)
  have p: \<open>parse_response (JStr (lit ''So: {"up": 2, "note": "n/a", "risk": null, "ok": true}''))
      = Inr (Some [(lit ''up'', Plain (lit ''2'')), (lit ''note'', Plain (lit ''n/a'')),
                   (lit ''risk'', Plain (lit ''0'')), (lit ''ok'', Plain (lit ''True''))])\<close>
    unfolding parse_response_def by (simp add: r j) (simp add: stringify_def int_str_def lit_def)
  from feature_map_normalization [OF r j] r j p show ?thesis by blast
qed

text \<open>
  C5, as amended. In every run of \<open>filter_samples\<close> that returns, a sample of the input
  is retained if and only if \<open>parse_response\<close> gives it a Feature Map in which some value,
  read by \<^verbatim>\<open>int\<close>, is a non-zero integer; it is removed otherwise. A sample whose
  response holds the object \<^verbatim>\<open>{"a": 0, "b": "0", "c": null}\<close> as its match (no opening brace
  before the object, no closing brace after it on its line) is removed, one whose response
  holds \<^verbatim>\<open>{"a": 1, "b": 0}\<close> in the same way is retained. The statement for every response
  that contains the object, and for every run, fails in three ways: with a closing brace
  later on the line the greedy match runs past the object and \<^verbatim>\<open>json.loads\<close> rejects it,
  so \<^verbatim>\<open>{"a": 1, "b": 0} }\<close> is removed; an all-zero object nested in a larger one is only
  one value of the larger Feature Map, so \<^verbatim>\<open>{"k": 5, "z": {"a": 0, "b": "0", "c": null}}\<close>
  is retained; and on \<^verbatim>\<open>{"a": "high", "b": 1}\<close> the Feature Map has the non-zero value 1
  but \<^verbatim>\<open>int\<close> raises on the value before it, so nothing is retained.
\<close>

theorem filter_decision_rule:
  assumes "filter_samples data = Inr (retained, removed)" and "sample \<in> set data"
  shows \<open>(sample \<in> set retained \<longleftrightarrow>
            (\<exists>r fm. get_response sample = Inr r \<and> parse_response r = Inr (Some fm)
                \<and> (\<exists>v \<in> snd ` set fm. \<exists>i. py_int v = Some i \<and> i \<noteq> 0)))
         \<and> (sample \<in> set removed \<longleftrightarrow> sample \<notin> set retained)
         \<and> (\<forall>pre post. plain_text pre post
               \<and> get_response sample = Inr (JStr (pre @ lit ''{"a": 0, "b": "0", "c": null}'' @ post))
               \<longrightarrow> sample \<in> set removed)
         \<and> (\<forall>pre post. plain_text pre post
               \<and> get_response sample = Inr (JStr (pre @ lit ''{"a": 1, "b": 0}'' @ post))
               \<longrightarrow> sample \<in> set retained)\<close>
proof -
  from assms have all: "\<forall>s \<in> set data. \<exists>b. decision s = Inr b"
    and k: "retained = filter (\<lambda>s. decision s = Inr True) data"
    and r: "removed = filter (\<lambda>s. decision s = Inr False) data"
    by (simp_all add: filter_samples_def filter_loop_Inr)
  from all assms(2) obtain b where b: "decision sample = Inr b" by blast
  have mem: "sample \<in> set retained \<longleftrightarrow> b" "sample \<in> set removed \<longleftrightarrow> \<not> b"
    using b assms(2) by (auto simp: k r)
  have rule: "sample \<in> set retained \<longleftrightarrow>
            (\<exists>r fm. get_response sample = Inr r \<and> parse_response r = Inr (Some fm)
                \<and> (\<exists>v \<in> snd ` set fm. \<exists>i. py_int v = Some i \<and> i \<noteq> 0))"
    using decision_True_iff [OF b] mem by simp
  have k1: \<open>keep (Some [(lit ''a'', Plain (lit ''0'')), (lit ''b'', Plain (lit ''0'')), (lit ''c'', Plain (lit ''0''))])
      = Inr False\<close>
    by (simp add: keep_def lit_def long_from_string_def ascii_space_def is_digit_def
          int_max_str_digits_def digits_value_def)
  have k2: \<open>keep (Some [(lit ''a'', Plain (lit ''1'')), (lit ''b'', Plain (lit ''0''))]) = Inr True\<close>
    by (simp add: keep_def lit_def long_from_string_def ascii_space_def is_digit_def
          int_max_str_digits_def digits_value_def)
  have ex1: \<open>sample \<in> set removed\<close>
    if p: \<open>plain_text pre post\<close>
      and g: \<open>get_response sample = Inr (JStr (pre @ lit ''{"a": 0, "b": "0", "c": null}'' @ post))\<close>
    for pre post
  proof -
    have \<open>parse_response (JStr (pre @ lit ''{"a": 0, "b": "0", "c": null}'' @ post))
        = parse_response (JStr (lit ''{"a": 0, "b": "0", "c": null}''))\<close>
    proof (rule parse_response_contains)
      show \<open>lit ''{"a": 0, "b": "0", "c": null}'' = 123 # lit ''"a": 0, "b": "0", "c": null'' @ [125]\<close>
        by (simp add: lit_def)
      show \<open>10 \<notin> set (lit ''"a": 0, "b": "0", "c": null'')\<close> by (simp add: lit_def)
      show \<open>plain_text pre post\<close> by (rule p)
    qed
    then have "decision sample = Inr False"
      unfolding decision_def g by (simp only: example_removed k1 sum.case)
    with b mem show ?thesis by simp
  qed
  have ex2: \<open>sample \<in> set retained\<close>
    if p: \<open>plain_text pre post\<close>
      and g: \<open>get_response sample = Inr (JStr (pre @ lit ''{"a": 1, "b": 0}'' @ post))\<close>
    for pre post
  proof -
    have \<open>parse_response (JStr (pre @ lit ''{"a": 1, "b": 0}'' @ post))
        = parse_response (JStr (lit ''{"a": 1, "b": 0}''))\<close>
    proof (rule parse_response_contains)
      show \<open>lit ''{"a": 1, "b": 0}'' = 123 # lit ''"a": 1, "b": 0'' @ [125]\<close>
        by (simp add: lit_def)
      show \<open>10 \<notin> set (lit ''"a": 1, "b": 0'')\<close> by (simp add: lit_def)
      show \<open>plain_text pre post\<close> by (rule p)
    qed
    then have "decision sample = Inr True"
      unfolding decision_def g by (simp only: example_retained k2 sum.case)
    with b mem show ?thesis by simp
  qed
  from rule mem ex1 ex2 show ?thesis by blast
qed

theorem filter_decision_rule_witness:
  \<open>filter_samples [sample_of (lit ''Result: {"a": 0, "b": "0", "c": null} (none)''),
                    sample_of (lit ''[Features]: {"a": 1, "b": 0}'')]
     = Inr ([sample_of (lit ''[Features]: {"a": 1, "b": 0}'')],
            [sample_of (lit ''Result: {"a": 0, "b": "0", "c": null} (none)'')])
   \<and> plain_text (lit ''Result: '') (lit '' (none)'')
   \<and> get_response (sample_of (lit ''Result: {"a": 0, "b": "0", "c": null} (none)''))
       = Inr (JStr (lit ''Result: '' @ lit ''{"a": 0, "b": "0", "c": null}'' @ lit '' (none)''))
   \<and> sample_of (lit ''Result: {"a": 0, "b": "0", "c": null} (none)'')
       \<in> set [sample_of (lit ''Result: {"a": 0, "b": "0", "c": null} (none)'')]
   \<and> \<not> (\<exists>r fm. get_response (sample_of (lit ''Result: {"a": 0, "b": "0", "c": null} (none)'')) = Inr r
            \<and> parse_response r = Inr (Some fm)
            \<and> (\<exists>v \<in> snd ` set fm. \<exists>i. py_int v = Some i \<and> i \<noteq> 0))
   \<and> plain_text (lit ''[Features]: '') []
   \<and> get_response (sample_of (lit ''[Features]: {"a": 1, "b": 0}''))
       = Inr (JStr (lit ''[Features]: '' @ lit ''{"a": 1, "b": 0}'' @ []))
   \<and> sample_of (lit ''[Features]: {"a": 1, "b": 0}'') \<in> set [sample_of (lit ''[Features]: {"a": 1, "b": 0}'')]
   \<and> (\<exists>r fm. get_response (sample_of (lit ''[Features]: {"a": 1, "b": 0}'')) = Inr r
            \<and> parse_response r = Inr (Some fm)
            \<and> (\<exists>v \<in> snd ` set fm. \<exists>i. py_int v = Some i \<and> i \<noteq> 0))\<close>
proof -
  have h: \<open>filter_samples [sample_of (lit ''Result: {"a": 0, "b": "0", "c": null} (none)''),
                    sample_of (lit ''[Features]: {"a": 1, "b": 0}'')]
     = Inr ([sample_of (lit ''[Features]: {"a": 1, "b": 0}'')],
            [sample_of (lit ''Result: {"a": 0, "b": "0", "c": null} (none)'')])\<close>
    by (simp add: filter_eval json_eval)
  have m1: \<open>sample_of (lit ''Result: {"a": 0, "b": "0", "c": null} (none)'')
      \<in> set [sample_of (lit ''Result: {"a": 0, "b": "0", "c": null} (none)''),
              sample_of (lit ''[Features]: {"a": 1, "b": 0}'')]\<close> by simp
  have m2: \<open>sample_of (lit ''[Features]: {"a": 1, "b": 0}'')
      \<in> set [sample_of (lit ''Result: {"a": 0, "b": "0", "c": null} (none)''),
              sample_of (lit ''[Features]: {"a": 1, "b": 0}'')]\<close> by simp
  have p1: \<open>plain_text (lit ''Result: '') (lit '' (none)'')\<close>
    and p2: \<open>plain_text (lit ''[Features]: '') []\<close>
    by (simp_all add: plain_text_def lit_def)
  have g1: \<open>get_response (sample_of (lit ''Result: {"a": 0, "b": "0", "c": null} (none)''))
       = Inr (JStr (lit ''Result: '' @ lit ''{"a": 0, "b": "0", "c": null}'' @ lit '' (none)''))\<close>
    and g2: \<open>get_response (sample_of (lit ''[Features]: {"a": 1, "b": 0}''))
       = Inr (JStr (lit ''[Features]: '' @ lit ''{"a": 1, "b": 0}'' @ []))\<close>
    by (simp_all add: get_response_def sample_of_def lit_def)
  note t1 = filter_decision_rule [OF h m1]
  note t2 = filter_decision_rule [OF h m2]
  have r1: \<open>sample_of (lit ''Result: {"a": 0, "b": "0", "c": null} (none)'')
       \<in> set [sample_of (lit ''Result: {"a": 0, "b": "0", "c": null} (none)'')]\<close>
    using t1 p1 g1 by blast
  have r2: \<open>sample_of (lit ''[Features]: {"a": 1, "b": 0}'') \<in> set [sample_of (lit ''[Features]: {"a": 1, "b": 0}'')]\<close>
    using t2 p2 g2 by blast
  have n1: \<open>\<not> (\<exists>r fm. get_response (sample_of (lit ''Result: {"a": 0, "b": "0", "c": null} (none)'')) = Inr r
            \<and> parse_response r = Inr (Some fm)
            \<and> (\<exists>v \<in> snd ` set fm. \<exists>i. py_int v = Some i \<and> i \<noteq> 0))\<close>
    using t1 [THEN conjunct1] t1 [THEN conjunct2, THEN conjunct1] r1 by blast
  have e2: \<open>\<exists>r fm. get_response (sample_of (lit ''[Features]: {"a": 1, "b": 0}'')) = Inr r
            \<and> parse_response r = Inr (Some fm)
            \<and> (\<exists>v \<in> snd ` set fm. \<exists>i. py_int v = Some i \<and> i \<noteq> 0)\<close>
    using t2 [THEN conjunct1] r2 by blast
  from h p1 g1 r1 n1 p2 g2 r2 e2 show ?thesis by blast
qed

theorem filter_decision_rule_counterexample:
  \<open>lit ''{"a": 1, "b": 0} }'' = [] @ lit ''{"a": 1, "b": 0}'' @ lit '' }''
   \<and> re_search (lit ''{"a": 1, "b": 0} }'') = Some (lit ''{"a": 1, "b": 0} }'')
   \<and> json_loads (lit ''{"a": 1, "b": 0} }'') = Inl JSONDecodeError
   \<and> filter_samples [sample_of (lit ''{"a": 1, "b": 0} }'')]
       = Inr ([], [sample_of (lit ''{"a": 1, "b": 0} }'')])
   \<and> lit ''{"k": 5, "z": {"a": 0, "b": "0", "c": null}}''
       = lit ''{"k": 5, "z": '' @ lit ''{"a": 0, "b": "0", "c": null}'' @ lit ''}''
   \<and> filter_samples [sample_of (lit ''{"k": 5, "z": {"a": 0, "b": "0", "c": null}}'')]
       = Inr ([sample_of (lit ''{"k": 5, "z": {"a": 0, "b": "0", "c": null}}'')], [])
   \<and> parse_response (JStr (lit ''{"a": "high", "b": 1}''))
       = Inr (Some [(lit ''a'', Plain (lit ''high'')), (lit ''b'', Plain (lit ''1''))])
   \<and> py_int (Plain (lit ''1'')) = Some 1
   \<and> filter_samples [sample_of (lit ''{"a": "high", "b": 1}'')] = Inl ValueError\<close>
proof -
  have c1: \<open>lit ''{"a": 1, "b": 0} }'' = [] @ lit ''{"a": 1, "b": 0}'' @ lit '' }''\<close>
    and c2: \<open>lit ''{"k": 5, "z": {"a": 0, "b": "0", "c": null}}''
       = lit ''{"k": 5, "z": '' @ lit ''{"a": 0, "b": "0", "c": null}'' @ lit ''}''\<close>
    by (simp_all add: lit_def)
  have r1: \<open>re_search (lit ''{"a": 1, "b": 0} }'') = Some (lit ''{"a": 1, "b": 0} }'')\<close>
    by (simp add: lit_def dot_star_brace_def)
  have j1: \<open>json_loads (lit ''{"a": 1, "b": 0} }'') = Inl JSONDecodeError\<close>
    by (simp add: json_eval)
  have p1: \<open>parse_response (JStr (lit ''{"a": 1, "b": 0} }'')) = Inr None\<close>
    by (simp add: parse_response_def r1 j1)
  have g: "get_response (sample_of t) = Inr (JStr t)" for t
    by (simp add: get_response_def sample_of_def lit_def)
  have f1: \<open>filter_samples [sample_of (lit ''{"a": 1, "b": 0} }'')]
       = Inr ([], [sample_of (lit ''{"a": 1, "b": 0} }'')])\<close>
    by (simp add: filter_samples_single decision_def g p1 keep_def)
  have r2: \<open>re_search (lit ''{"k": 5, "z": {"a": 0, "b": "0", "c": null}}'')
      = Some (lit ''{"k": 5, "z": {"a": 0, "b": "0", "c": null}}'')\<close>
    by (simp add: lit_def dot_star_brace_def)
  have j2: \<open>json_loads (lit ''{"k": 5, "z": {"a": 0, "b": "0", "c": null}}'')
      = Inr (JObject [(lit ''k'', JInt 5),
               (lit ''z'', JObject [(lit ''a'', JInt 0), (lit ''b'', JStr (lit ''0'')), (lit ''c'', JNull)])])\<close>
    by (simp add: json_eval)
  have p2: \<open>parse_response (JStr (lit ''{"k": 5, "z": {"a": 0, "b": "0", "c": null}}''))
      = Inr (Some [(lit ''k'', Plain (lit ''5'')),
               (lit ''z'', Printed (JObject [(lit ''a'', JInt 0), (lit ''b'', JStr (lit ''0'')), (lit ''c'', JNull)]))])\<close>
    by (simp add: parse_response_def r2 j2) (simp add: stringify_def int_str_def lit_def)
  have i5: \<open>py_int (Plain (lit ''5'')) = Some 5\<close>
    and i1: \<open>py_int (Plain (lit ''1'')) = Some 1\<close>
    and ih: \<open>py_int (Plain (lit ''high'')) = None\<close>
    by (simp_all add: lit_def long_from_string_def ascii_space_def is_digit_def
          int_max_str_digits_def digits_value_def)
  have f2: \<open>filter_samples [sample_of (lit ''{"k": 5, "z": {"a": 0, "b": "0", "c": null}}'')]
       = Inr ([sample_of (lit ''{"k": 5, "z": {"a": 0, "b": "0", "c": null}}'')], [])\<close>
    by (simp add: filter_samples_single decision_def g p2 keep_def i5 del: py_int.simps)
  have p3: \<open>parse_response (JStr (lit ''{"a": "high", "b": 1}''))
       = Inr (Some [(lit ''a'', Plain (lit ''high'')), (lit ''b'', Plain (lit ''1''))])\<close>
    by (simp add: filter_eval json_eval)
  have f3: \<open>filter_samples [sample_of (lit ''{"a": "high", "b": 1}'')] = Inl ValueError\<close>
    by (simp add: filter_samples_single decision_def g p3 keep_def ih del: py_int.simps)
  from c1 r1 j1 f1 c2 f2 p3 i1 f3 show ?thesis by blast
qed

text \<open>
  C6, as amended. \<^verbatim>\<open>any\<close> converts the values in dict order and stops at the first
  non-zero integer. A value that does not parse as an integer makes \<open>filter_samples\<close>
  raise \<^verbatim>\<open>ValueError\<close> when every value before it in the Feature Map is an integer equal
  to zero; when a non-zero integer comes first, the sample is retained and the later
  values are never converted. The statement for every Feature Map with a value that
  is not an integer fails on \<^verbatim>\<open>{"a": 1, "b": "high"}\<close>: that sample is retained and
  nothing is raised (the counterexample).
\<close>

theorem coercion_failure:
  assumes "sample \<in> set data" and "get_response sample = Inr r"
    and "parse_response r = Inr (Some fm)"
    and "map snd fm = zs @ v # rest" and "\<forall>z \<in> set zs. py_int z = Some 0"
  shows "(py_int v = None \<longrightarrow>
            decision sample = Inl ValueError \<and> (\<exists>e. filter_samples data = Inl e)
            \<and> filter_samples [sample] = Inl ValueError)
         \<and> (\<forall>i. py_int v = Some i \<and> i \<noteq> 0 \<longrightarrow>
            decision sample = Inr True \<and> filter_samples [sample] = Inr ([sample], []))"
proof -
  from assms(4) have ne: "fm \<noteq> []" by auto
  have d: "decision sample = any_nonzero (v # rest)"
    using assms(2,3,4) ne any_nonzero_zeros [OF assms(5), of "v # rest"]
    by (simp add: decision_def keep_def)
  have 1: "decision sample = Inl ValueError \<and> (\<exists>e. filter_samples data = Inl e)
            \<and> filter_samples [sample] = Inl ValueError" if "py_int v = None"
  proof -
    from d that have dv: "decision sample = Inl ValueError" by simp
    then have "\<exists>e. filter_samples data = Inl e"
      unfolding filter_samples_def using assms(1) by (intro filter_loop_raises)
    with dv show ?thesis by (simp add: filter_samples_single)
  qed
  have 2: "decision sample = Inr True \<and> filter_samples [sample] = Inr ([sample], [])"
    if "py_int v = Some i \<and> i \<noteq> 0" for i
    using d that by (simp add: filter_samples_single)
  from 1 2 show ?thesis by blast
qed

theorem coercion_failure_witness:
  \<open>sample_of (lit ''{"a": 0, "b": "high", "c": 1}'') \<in> set [sample_of (lit ''none''), sample_of (lit ''{"a": 0, "b": "high", "c": 1}'')]
   \<and> get_response (sample_of (lit ''{"a": 0, "b": "high", "c": 1}'')) = Inr (JStr (lit ''{"a": 0, "b": "high", "c": 1}''))
   \<and> parse_response (JStr (lit ''{"a": 0, "b": "high", "c": 1}''))
       = Inr (Some [(lit ''a'', Plain (lit ''0'')), (lit ''b'', Plain (lit ''high'')), (lit ''c'', Plain (lit ''1''))])
   \<and> py_int (Plain (lit ''0'')) = Some 0
   \<and> py_int (Plain (lit ''high'')) = None
   \<and> decision (sample_of (lit ''{"a": 0, "b": "high", "c": 1}'')) = Inl ValueError
   \<and> (\<exists>e. filter_samples [sample_of (lit ''none''), sample_of (lit ''{"a": 0, "b": "high", "c": 1}'')] = Inl e)
   \<and> filter_samples [sample_of (lit ''{"a": 0, "b": "high", "c": 1}'')] = Inl ValueError\<close>
proof -
  have m: \<open>sample_of (lit ''{"a": 0, "b": "high", "c": 1}'') \<in> set [sample_of (lit ''none''), sample_of (lit ''{"a": 0, "b": "high", "c": 1}'')]\<close>
    by simp
  have g: \<open>get_response (sample_of (lit ''{"a": 0, "b": "high", "c": 1}'')) = Inr (JStr (lit ''{"a": 0, "b": "high", "c": 1}''))\<close>
    by (simp add: get_response_def sample_of_def lit_def)
  have p: \<open>parse_response (JStr (lit ''{"a": 0, "b": "high", "c": 1}''))
       = Inr (Some [(lit ''a'', Plain (lit ''0'')), (lit ''b'', Plain (lit ''high'')), (lit ''c'', Plain (lit ''1''))])\<close>
    by (simp add: filter_eval json_eval)
  have s: \<open>map snd [(lit ''a'', Plain (lit ''0'')), (lit ''b'', Plain (lit ''high'')), (lit ''c'', Plain (lit ''1''))]
      = [Plain (lit ''0'')] @ Plain (lit ''high'') # [Plain (lit ''1'')]\<close>
    by simp
  have z: \<open>\<forall>z \<in> set [Plain (lit ''0'')]. py_int z = Some 0\<close>
    by (simp add: lit_def long_from_string_def ascii_space_def is_digit_def
          int_max_str_digits_def digits_value_def)
  have n: \<open>py_int (Plain (lit ''high'')) = None\<close>
    by (simp add: lit_def long_from_string_def ascii_space_def is_digit_def)
  from z have z': \<open>py_int (Plain (lit ''0'')) = Some 0\<close> by simp
  from coercion_failure [OF m g p s z] m g p z' n show ?thesis by blast
qed

theorem coercion_failure_counterexample:
  \<open>parse_response (JStr (lit ''{"a": 1, "b": "high"}''))
       = Inr (Some [(lit ''a'', Plain (lit ''1'')), (lit ''b'', Plain (lit ''high''))])
   \<and> py_int (Plain (lit ''high'')) = None
   \<and> filter_samples [sample_of (lit ''{"a": 1, "b": "high"}'')]
       = Inr ([sample_of (lit ''{"a": 1, "b": "high"}'')], [])\<close>
  by (simp add: filter_eval json_eval is_digit_def)

text \<open>
  C7. \<open>load_json_files\<close> ignores the entries whose names do not end in \<^verbatim>\<open>.json\<close>; when
  each remaining file holds a JSON array, the result is the concatenation of these arrays
  in the order of the listing; a file on which \<^verbatim>\<open>json.load\<close> raises makes the whole call
  raise (no file is skipped), and the error is that of the first such file when the files
  before it are arrays.
\<close>

theorem loader_contract:
  "load_json_files dir = load_json_files (filter json_named dir)
   \<and> ((\<forall>entry \<in> set dir. json_named entry \<longrightarrow> samples_in entry \<noteq> None) \<longrightarrow>
        load_json_files dir
          = Inr (concat (map (\<lambda>entry. case samples_in entry of Some xs \<Rightarrow> xs | None \<Rightarrow> [])
                             (filter json_named dir))))
   \<and> (\<forall>entry \<in> set dir. malformed entry \<longrightarrow> (\<exists>e. load_json_files dir = Inl e))
   \<and> (\<forall>pre entry post text e.
         dir = pre @ entry # post \<and> (\<forall>x \<in> set pre. json_named x \<longrightarrow> samples_in x \<noteq> None)
         \<and> json_named entry \<and> snd entry = Inr text \<and> json_loads text = Inl e
         \<longrightarrow> load_json_files dir = Inl e)"
proof -
  have 1: "load_json_files dir = load_json_files (filter json_named dir)"
    by (simp add: load_json_files_def load_loop_skip)
  have 2: "load_json_files dir
          = Inr (concat (map (\<lambda>entry. case samples_in entry of Some xs \<Rightarrow> xs | None \<Rightarrow> [])
                             (filter json_named dir)))"
    if "\<forall>entry \<in> set dir. json_named entry \<longrightarrow> samples_in entry \<noteq> None"
    using load_loop_arrays [OF that, of "[]"] by (simp add: load_json_files_def)
  have 3: "\<exists>e. load_json_files dir = Inl e" if "entry \<in> set dir" "malformed entry" for entry
    unfolding load_json_files_def using that by (rule load_loop_raises)
  have 4: "load_json_files dir = Inl e"
    if "dir = pre @ entry # post \<and> (\<forall>x \<in> set pre. json_named x \<longrightarrow> samples_in x \<noteq> None)
         \<and> json_named entry \<and> snd entry = Inr body \<and> json_loads body = Inl e"
    for pre entry post body e
    unfolding load_json_files_def using that by (intro load_loop_first_error) blast+
  from 1 2 3 4 show ?thesis by blast
qed

theorem loader_contract_witness:
  \<open>load_json_files dir_ok
       = Inr [JObject [(lit ''response'', JStr (lit ''x''))], JObject [(lit ''response'', JStr (lit ''y''))],
              JObject [(lit ''response'', JStr (lit ''z''))]]
   \<and> (lit ''tsla.json'', Inr (lit ''[{"response": '')) \<in> set dir_bad
   \<and> malformed (lit ''tsla.json'', Inr (lit ''[{"response": ''))
   \<and> load_json_files dir_bad = Inl JSONDecodeError\<close>
proof -
  have h: "\<forall>entry \<in> set dir_ok. json_named entry \<longrightarrow> samples_in entry \<noteq> None"
    by (simp add: dir_ok_def json_named_def samples_in_def endswith_eval loads_eval)
  have v: \<open>concat (map (\<lambda>entry. case samples_in entry of Some xs \<Rightarrow> xs | None \<Rightarrow> [])
                             (filter json_named dir_ok))
      = [JObject [(lit ''response'', JStr (lit ''x''))], JObject [(lit ''response'', JStr (lit ''y''))],
              JObject [(lit ''response'', JStr (lit ''z''))]]\<close>
    by (simp add: dir_ok_def json_named_def samples_in_def endswith_eval loads_eval)
  have m: \<open>(lit ''tsla.json'', Inr (lit ''[{"response": '')) \<in> set dir_bad\<close>
    by (simp add: dir_bad_def)
  have b: \<open>malformed (lit ''tsla.json'', Inr (lit ''[{"response": ''))\<close>
    by (simp add: malformed_def json_named_def endswith_eval loads_eval)
  have d: \<open>dir_bad = [(lit ''aapl.json'', Inr (lit ''[{"response": "x"}]''))]
      @ (lit ''tsla.json'', Inr (lit ''[{"response": '')) # [(lit ''msft.json'', Inr (lit ''[]''))]\<close>
    by (simp add: dir_bad_def)
  have p: \<open>\<forall>x \<in> set [(lit ''aapl.json'', Inr (lit ''[{"response": "x"}]''))].
      json_named x \<longrightarrow> samples_in x \<noteq> None\<close>
    by (simp add: json_named_def samples_in_def endswith_eval loads_eval)
  have n: \<open>json_named (lit ''tsla.json'', Inr (lit ''[{"response": ''))\<close>
    by (simp add: json_named_def endswith_eval)
  from loader_contract [of dir_ok, THEN conjunct2, THEN conjunct1, THEN mp, OF h] v
  have 1: \<open>load_json_files dir_ok
       = Inr [JObject [(lit ''response'', JStr (lit ''x''))], JObject [(lit ''response'', JStr (lit ''y''))],
              JObject [(lit ''response'', JStr (lit ''z''))]]\<close>
    by simp
  have s: \<open>snd (lit ''tsla.json'', Inr (lit ''[{"response": '')) = Inr (lit ''[{"response": '')\<close>
    by simp
  from loader_contract [of dir_bad, THEN conjunct2, THEN conjunct2, THEN conjunct2] d p n s loads_eval(3)
  have 2: "load_json_files dir_bad = Inl JSONDecodeError"
    by blast
  from 1 m b 2 show ?thesis by blast
qed



text \<open>
  C9. The pattern does not cross a line feed: when no line of the response holds an opening
  brace with a closing brace after it, there is no match, \<open>parse_response\<close> returns
  \<^verbatim>\<open>None\<close> and the sample is removed, also when the response holds a valid object
  printed over several lines (the witness).
\<close>

theorem no_match_across_lines:
  assumes "\<forall>i j. \<not> closes s i j"
  shows "re_search s = None \<and> parse_response (JStr s) = Inr None
         \<and> (\<forall>sample. get_response sample = Inr (JStr s) \<longrightarrow>
               filter_samples [sample] = Inr ([], [sample])
               \<and> (\<forall>data retained removed.
                     sample \<in> set data \<and> filter_samples data = Inr (retained, removed)
                     \<longrightarrow> sample \<in> set removed \<and> sample \<notin> set retained))"
proof -
  from assms have n: "re_search s = None" by (simp add: no_close_iff)
  then have p: "parse_response (JStr s) = Inr None" by (simp add: parse_response_def)
  have "decision sample = Inr False" if "get_response sample = Inr (JStr s)" for sample
    using that p by (simp add: decision_def keep_def)
  then show ?thesis
    using n p by (auto simp: filter_samples_single dest: decision_False_removed)
qed

theorem no_match_across_lines_witness:
  \<open>(\<forall>i j. \<not> closes (lit ''Features: {'' @ [10] @ lit ''  "a": 1'' @ [10] @ lit ''}'') i j)
   \<and> json_loads (lit ''{'' @ [10] @ lit ''  "a": 1'' @ [10] @ lit ''}'') = Inr (JObject [(lit ''a'', JInt 1)])
   \<and> re_search (lit ''Features: {'' @ [10] @ lit ''  "a": 1'' @ [10] @ lit ''}'') = None
   \<and> parse_response (JStr (lit ''Features: {'' @ [10] @ lit ''  "a": 1'' @ [10] @ lit ''}'')) = Inr None
   \<and> filter_samples [sample_of (lit ''Features: {'' @ [10] @ lit ''  "a": 1'' @ [10] @ lit ''}'')]
       = Inr ([], [sample_of (lit ''Features: {'' @ [10] @ lit ''  "a": 1'' @ [10] @ lit ''}'')])\<close>
proof -
  have r: \<open>re_search (lit ''Features: {'' @ [10] @ lit ''  "a": 1'' @ [10] @ lit ''}'') = None\<close>
    by (simp add: lit_def dot_star_brace_def)
  then have h: \<open>\<forall>i j. \<not> closes (lit ''Features: {'' @ [10] @ lit ''  "a": 1'' @ [10] @ lit ''}'') i j\<close>
    by (simp add: no_close_iff)
  have g: \<open>get_response (sample_of (lit ''Features: {'' @ [10] @ lit ''  "a": 1'' @ [10] @ lit ''}''))
      = Inr (JStr (lit ''Features: {'' @ [10] @ lit ''  "a": 1'' @ [10] @ lit ''}''))\<close>
    by (simp add: get_response_def sample_of_def lit_def)
  have j: \<open>json_loads (lit ''{'' @ [10] @ lit ''  "a": 1'' @ [10] @ lit ''}'') = Inr (JObject [(lit ''a'', JInt 1)])\<close>
    by (simp add: json_eval)
  from no_match_across_lines [OF h] g h j show ?thesis by blast
qed



end
